theory Spec2Isabelle
  imports Main "HOL-Library.Word"
begin

section \<open>SAMLView: the capture-session engine of background.js\<close>

text \<open>
  A shallow embedding of \<^verbatim>\<open>src/background.js\<close>. JavaScript strings are modelled as
  \<^typ>\<open>string\<close> (code units restricted to one byte), numbers that count or identify
  as \<^typ>\<open>nat\<close> or \<^typ>\<open>int\<close>, \<^verbatim>\<open>undefined\<close>/\<^verbatim>\<open>null\<close> as \<^const>\<open>None\<close>,
  a \<^verbatim>\<open>Set\<close> as a set, a \<^verbatim>\<open>Map\<close> as a partial function or, where iteration order
  matters, as an association list in insertion order. Mutation of a session object is
  explicit state passing.
\<close>

subsection \<open>Constants\<close>

definition MAX_MESSAGES :: nat where
  "MAX_MESSAGES = 1000"

definition MIN_BASE64_LENGTH :: nat where
  "MIN_BASE64_LENGTH = 16"

definition XML_DETECTION_PREVIEW_LENGTH :: nat where
  "XML_DETECTION_PREVIEW_LENGTH = 400"

subsection \<open>Data model\<close>

type_synonym byte = "8 word"

text \<open>A plain JavaScript object used as a dictionary of header values, in property order.\<close>

type_synonym headerObject = "(string \<times> string option) list"

text \<open>
  One stored message: the object literals \<^verbatim>\<open>entry\<close>, \<^verbatim>\<open>entryA\<close>, \<^verbatim>\<open>entryJ\<close>, \<^verbatim>\<open>entryS\<close>
  of the source. A property that a literal leaves out, or sets to \<^verbatim>\<open>null\<close>, is
  \<^const>\<open>None\<close>. \<^verbatim>\<open>statusCode\<close> and \<^verbatim>\<open>responseHeaders\<close> are only ever set by
  \<^verbatim>\<open>attachResponseData\<close>. The field \<^verbatim>\<open>id\<close> is named \<open>id_msg\<close> and the
  field \<^verbatim>\<open>method\<close> \<open>httpMethod\<close>.
\<close>

record message =
  id_msg :: nat
  kind :: string
  transport :: string
  url :: string
  time :: string
  xml :: string
  tabId :: int
  source :: "string option"
  base64 :: "string option"
  encoding :: "string option"
  relayState :: "string option"
  httpMethod :: "string option"
  requestHeaders :: "headerObject option"
  requestId :: "string option"
  statusCode :: "int option"
  responseHeaders :: "headerObject option"

text \<open>The \<^verbatim>\<open>SessionState\<close> structure (lines 11-20), with the \<^verbatim>\<open>isCapturing\<close> flag.\<close>

record session =
  windowId :: int
  rootTabId :: int
  trackedTabIds :: "int set"
  messages :: "message list"
  nextMessageId :: nat
  seenKeys :: "string set"
  requestIdToMessageId :: "string \<rightharpoonup> nat"
  isCapturing :: bool

text \<open>
  The global \<^verbatim>\<open>sessions\<close> map from window id to session. A JavaScript \<^verbatim>\<open>Map\<close>
  iterates in insertion order, and \<^verbatim>\<open>getSessionByTabId\<close> depends on it.
\<close>

type_synonym sessions = "(int \<times> session) list"

definition createSession :: "int \<Rightarrow> int \<Rightarrow> session" where
  "createSession wid root =
     \<lparr>windowId = wid, rootTabId = root, trackedTabIds = {root}, messages = [],
      nextMessageId = 1, seenKeys = {}, requestIdToMessageId = Map.empty,
      isCapturing = False\<rparr>"

subsection \<open>Strings\<close>

text \<open>
  \<^verbatim>\<open>String.prototype.trim\<close> removes white space and line terminators from both ends; among
  one-byte code units these are TAB, LF, VT, FF, CR, SPACE and NBSP.
\<close>

definition isTrimSpace :: "char \<Rightarrow> bool" where
  "isTrimSpace c = (c \<in> {CHR 0x09, CHR 0x0A, CHR 0x0B, CHR 0x0C, CHR 0x0D, CHR 0x20, CHR 0xA0})"

definition trim :: "string \<Rightarrow> string" where
  "trim s = rev (dropWhile isTrimSpace (rev (dropWhile isTrimSpace s)))"

definition startsWith :: "string \<Rightarrow> string \<Rightarrow> bool" where
  "startsWith t p = (take (length p) t = p)"

fun includesStr :: "string \<Rightarrow> string \<Rightarrow> bool" where
  "includesStr [] p = (p = [])"
| "includesStr (c # cs) p = (startsWith (c # cs) p \<or> includesStr cs p)"

text \<open>
  \<^verbatim>\<open>toLowerCase\<close> on the letters A-Z. The needles searched for after lower-casing
  (\<^verbatim>\<open>samlresponse\<close>, \<^verbatim>\<open>samlrequest\<close>, \<^verbatim>\<open>request\<close>, \<^verbatim>\<open>response\<close>, header names) are ASCII
  and contain no letter that a non-ASCII code unit lower-cases to, so the other code
  units are left as they are. The same folding models the \<^verbatim>\<open>i\<close> flag of the regular
  expressions, which never equates a non-ASCII code unit with an ASCII one.
\<close>

definition lowerChar :: "char \<Rightarrow> char" where
  "lowerChar c =
     (let n = (of_char c :: nat) in if 65 \<le> n \<and> n \<le> 90 then char_of (n + 32) else c)"

definition toLowerCase :: "string \<Rightarrow> string" where
  "toLowerCase s = map lowerChar s"

subsection \<open>Decoder\<close>

text \<open>
  \<^verbatim>\<open>atob\<close> is a function of the host. The HTML standard defines it as the
  forgiving-base64 decode of the Infra standard, which is what is written here:
  remove ASCII white space; if the length is a multiple of four, remove one or two
  trailing \<^verbatim>\<open>=\<close>; fail if the length is 1 modulo 4 or a character is outside the
  alphabet; decode six bits per character, dropping the 4 or 2 bits left over at the end.
  A failure is the \<^verbatim>\<open>InvalidCharacterError\<close> that \<^verbatim>\<open>b64ToBytes\<close> catches.
\<close>

definition base64Alphabet :: string where
  "base64Alphabet = ''ABCDEFGHIJKLMNOPQRSTUVWXYZabcdefghijklmnopqrstuvwxyz0123456789+/''"

fun indexOf :: "'a list \<Rightarrow> 'a \<Rightarrow> nat" where
  "indexOf [] c = 0"
| "indexOf (x # xs) c = (if x = c then 0 else Suc (indexOf xs c))"

definition sextet :: "char \<Rightarrow> nat" where
  "sextet c = indexOf base64Alphabet c"

definition isBase64Char :: "char \<Rightarrow> bool" where
  "isBase64Char c = (c \<in> set base64Alphabet)"

definition isAsciiWhitespace :: "char \<Rightarrow> bool" where
  "isAsciiWhitespace c = (c \<in> {CHR 0x09, CHR 0x0A, CHR 0x0C, CHR 0x0D, CHR 0x20})"

definition stripPadding :: "string \<Rightarrow> string" where
  "stripPadding d =
     (if length d mod 4 = 0 then
        (if d \<noteq> [] \<and> last d = CHR ''='' then
           (let d1 = butlast d in if d1 \<noteq> [] \<and> last d1 = CHR ''='' then butlast d1 else d1)
         else d)
      else d)"

fun decodeSextets :: "nat list \<Rightarrow> nat list" where
  "decodeSextets (a # b # c # d # rest) =
     [a * 4 + b div 16, (b mod 16) * 16 + c div 4, (c mod 4) * 64 + d] @ decodeSextets rest"
| "decodeSextets [a, b, c] = [a * 4 + b div 16, (b mod 16) * 16 + c div 4]"
| "decodeSextets [a, b] = [a * 4 + b div 16]"
| "decodeSextets _ = []"

definition atob :: "string \<Rightarrow> string option" where
  "atob input =
     (let data = stripPadding (filter (\<lambda>c. \<not> isAsciiWhitespace c) input) in
      if length data mod 4 = 1 then None
      else if \<not> list_all isBase64Char data then None
      else Some (map char_of (decodeSextets (map sextet data))))"

text \<open>\<^verbatim>\<open>b64ToBytes\<close> (lines 97-108): \<^const>\<open>None\<close> is the \<^verbatim>\<open>null\<close> of the catch branch.\<close>

definition b64ToBytes :: "string \<Rightarrow> byte list option" where
  "b64ToBytes b64 =
     (case atob b64 of
        None \<Rightarrow> None
      | Some bin \<Rightarrow> Some (map (\<lambda>c. of_char c) bin))"

text \<open>
  What the host provides besides \<^verbatim>\<open>atob\<close>. \<open>inflateRaw\<close> is
  \<^verbatim>\<open>DecompressionStream('deflate-raw')\<close>: \<^const>\<open>None\<close> when the constructor is
  undefined, and a function that returns \<^const>\<open>None\<close> when the stream throws.
  \<open>utf8Decode\<close> is \<^verbatim>\<open>TextDecoder('utf-8', {fatal: false}).decode\<close>, which replaces
  malformed sequences and never throws, so the catch branch of \<^verbatim>\<open>bytesToUtf8\<close> is
  dead. \<open>jsonParse\<close> is \<^verbatim>\<open>JSON.parse\<close> (\<^const>\<open>None\<close> when it throws) and
  \<open>urlSearchParams\<close> is \<^verbatim>\<open>new URL(url).searchParams\<close> as the list of its pairs
  (\<^const>\<open>None\<close> when the constructor throws).
\<close>

datatype json =
  JNull
  | JBool bool
  | JNumber int
  | JString string
  | JArray "json list"
  | JObject "(string \<times> json) list"

record host =
  inflateRaw :: "(byte list \<Rightarrow> byte list option) option"
  utf8Decode :: "byte list \<Rightarrow> string"
  jsonParse :: "string \<Rightarrow> json option"
  urlSearchParams :: "string \<Rightarrow> (string \<times> string) list option"

definition maybeInflateDeflateRaw :: "host \<Rightarrow> byte list \<Rightarrow> byte list" where
  "maybeInflateDeflateRaw env bs =
     (case inflateRaw env of
        None \<Rightarrow> bs
      | Some inflate \<Rightarrow> (case inflate bs of Some inflated \<Rightarrow> inflated | None \<Rightarrow> bs))"

definition bytesToUtf8 :: "host \<Rightarrow> byte list \<Rightarrow> string option" where
  "bytesToUtf8 env bs = Some (utf8Decode env bs)"

definition decodeSAML :: "host \<Rightarrow> string \<Rightarrow> bool \<Rightarrow> string option" where
  "decodeSAML env b64 tryInflate =
     (case b64ToBytes b64 of
        None \<Rightarrow> None
      | Some raw \<Rightarrow>
          (let data = (if tryInflate then maybeInflateDeflateRaw env raw else raw) in
           case bytesToUtf8 env data of
             None \<Rightarrow> None
           | Some text \<Rightarrow> if text = [] then None else Some text))"

text \<open>
  The re-encoding that the specification's round-trip property speaks of. The repository
  has no encoder; this is base64 with padding as RFC 4648 defines it (what \<^verbatim>\<open>btoa\<close>
  computes), written from the specification's words.
\<close>

fun encodeSextets :: "nat list \<Rightarrow> string" where
  "encodeSextets (a # b # c # rest) =
     [base64Alphabet ! (a div 4), base64Alphabet ! ((a mod 4) * 16 + b div 16),
      base64Alphabet ! ((b mod 16) * 4 + c div 64), base64Alphabet ! (c mod 64)]
     @ encodeSextets rest"
| "encodeSextets [a, b] =
     [base64Alphabet ! (a div 4), base64Alphabet ! ((a mod 4) * 16 + b div 16),
      base64Alphabet ! ((b mod 16) * 4), CHR ''='']"
| "encodeSextets [a] =
     [base64Alphabet ! (a div 4), base64Alphabet ! ((a mod 4) * 16), CHR ''='', CHR ''='']"
| "encodeSextets [] = []"

definition base64Encode :: "byte list \<Rightarrow> string" where
  "base64Encode bs = encodeSextets (map unat bs)"

text \<open>
  Canonical base64: groups of four alphabet characters, the last group possibly padded
  with one or two \<^verbatim>\<open>=\<close>, the bits that padding leaves unused being zero.
\<close>

fun canonicalBase64 :: "string \<Rightarrow> bool" where
  "canonicalBase64 [] = True"
| "canonicalBase64 [a, b, c, d] =
     (isBase64Char a \<and> isBase64Char b \<and>
      (if d = CHR ''='' then
         (if c = CHR ''='' then sextet b mod 16 = 0
          else isBase64Char c \<and> sextet c mod 4 = 0)
       else isBase64Char c \<and> isBase64Char d))"
| "canonicalBase64 (a # b # c # d # rest) =
     (isBase64Char a \<and> isBase64Char b \<and> isBase64Char c \<and> isBase64Char d \<and>
      canonicalBase64 rest)"
| "canonicalBase64 _ = False"

subsection \<open>Heuristics\<close>

text \<open>\<^verbatim>\<open>looksLikeBase64\<close> (lines 110-115); the regular expression is \<^verbatim>\<open>^[A-Za-z0-9+/=]+$\<close>.\<close>

definition isBase64OrPad :: "char \<Rightarrow> bool" where
  "isBase64OrPad c = (isBase64Char c \<or> c = CHR ''='')"

definition looksLikeBase64 :: "string \<Rightarrow> bool" where
  "looksLikeBase64 s =
     (if s = [] \<or> length s < MIN_BASE64_LENGTH then False
      else if \<not> (s \<noteq> [] \<and> list_all isBase64OrPad s) then False
      else length s mod 4 = 0)"

text \<open>\<^verbatim>\<open>looksLikeXML\<close> (lines 117-121).\<close>

definition looksLikeXML :: "string \<Rightarrow> bool" where
  "looksLikeXML text =
     (if text = [] then False
      else (let t = take 200 (trim text) in startsWith t ''<'' \<or> startsWith t ''<?xml''))"

subsection \<open>Observed exchanges\<close>

text \<open>
  The \<^verbatim>\<open>details\<close> object of a webRequest event; its fields carry the prefix \<open>d_\<close>.
  A part of a raw body is its \<^verbatim>\<open>bytes\<close>, or \<^const>\<open>None\<close> for a file part.
\<close>

record header =
  h_name :: string
  h_value :: "string option"

record requestBody =
  formData :: "(string \<times> string list) list option"
  raw :: "byte list option list option"

record details =
  d_tabId :: int
  d_url :: string
  d_method :: string
  d_requestId :: string
  d_requestBody :: "requestBody option"
  d_requestHeaders :: "header list option"
  d_responseHeaders :: "header list option"
  d_statusCode :: "int option"

text \<open>The extracted candidate \<^verbatim>\<open>{ name, value, transport }\<close>.\<close>

record candidate =
  c_name :: string
  c_value :: string
  c_transport :: string

subsection \<open>Artifact extractor\<close>

text \<open>\<^verbatim>\<open>decodeRawBody\<close> (lines 159-175).\<close>

definition decodeRawBody :: "host \<Rightarrow> details \<Rightarrow> string option" where
  "decodeRawBody env dt =
     (case d_requestBody dt of
        None \<Rightarrow> None
      | Some body \<Rightarrow>
          (case raw body of
             None \<Rightarrow> None
           | Some rb \<Rightarrow>
               if rb = [] then None
               else
                 (let parts = filter (\<lambda>b. b \<noteq> [])
                                (map (\<lambda>p. case p of Some bs \<Rightarrow> bs | None \<Rightarrow> []) rb)
                  in if parts = [] then None
                     else
                       (case bytesToUtf8 env (concat parts) of
                          None \<Rightarrow> None
                        | Some text \<Rightarrow> if text = [] then None else Some text))))"

text \<open>
  The \<^verbatim>\<open>walk\<close> closure of \<^verbatim>\<open>extractSAMLFromJSONText\<close> (lines 181-192), returning what
  it pushes onto \<^verbatim>\<open>found\<close>, in order. A \<^const>\<open>JObject\<close> carries the pairs of the
  object in the order in which \<^verbatim>\<open>Object.entries\<close> lists them, which for an object that
  \<^verbatim>\<open>JSON.parse\<close> built is: the integer-like keys in ascending order first, then the
  other keys in the order of the document. \<^verbatim>\<open>Object.entries\<close> of an array is the
  elements paired with their indices in decimal.
\<close>

fun digitsOf :: "nat \<Rightarrow> nat \<Rightarrow> string" where
  "digitsOf 0 n = []"
| "digitsOf (Suc fuel) n =
     (if n < 10 then [char_of (48 + n)]
      else digitsOf fuel (n div 10) @ [char_of (48 + n mod 10)])"

definition decimal :: "nat \<Rightarrow> string" where
  "decimal n = digitsOf (Suc n) n"

fun walk :: "json \<Rightarrow> string \<Rightarrow> (string \<times> string) list"
  and walkEntries :: "(string \<times> json) list \<Rightarrow> (string \<times> string) list"
  and walkElements :: "nat \<Rightarrow> json list \<Rightarrow> (string \<times> string) list"
where
  "walk (JString v) k =
     (let key = toLowerCase k in
      if includesStr key ''samlresponse'' \<or> includesStr key ''samlrequest'' then [(k, v)]
      else if looksLikeBase64 v then [(if k = [] then ''b64'' else k, v)]
      else [])"
| "walk (JObject es) k = walkEntries es"
| "walk (JArray xs) k = walkElements 0 xs"
| "walk JNull k = []"
| "walk (JBool b) k = []"
| "walk (JNumber n) k = []"
| "walkEntries [] = []"
| "walkEntries (e # es) = walk (snd e) (fst e) @ walkEntries es"
| "walkElements i [] = []"
| "walkElements i (x # xs) = walk x (decimal i) @ walkElements (Suc i) xs"

definition extractSAMLFromJSONText :: "host \<Rightarrow> string \<Rightarrow> (string \<times> string) list option" where
  "extractSAMLFromJSONText env text =
     (case jsonParse env text of
        None \<Rightarrow> None
      | Some obj \<Rightarrow> (let found = walk obj [] in if found \<noteq> [] then Some found else None))"

text \<open>\<^verbatim>\<open>makeArtifactXML\<close> (lines 200-203).\<close>

definition escapeChar :: "char \<Rightarrow> string" where
  "escapeChar c =
     (if c = CHR ''<'' then ''&lt;''
      else if c = CHR ''>'' then ''&gt;''
      else if c = CHR ''&'' then ''&amp;''
      else [c])"

definition makeArtifactXML :: "string \<Rightarrow> string" where
  "makeArtifactXML artifact =
     ''<!-- SAMLArtifact: '' @ concat (map escapeChar artifact)
     @ '' (Note: Full assertion not available via Artifact binding) -->''"

text \<open>\<^verbatim>\<open>extractFromQuery\<close> (lines 205-216); \<^verbatim>\<open>q.get\<close> is the first value of a name.\<close>

definition extractFromQuery :: "host \<Rightarrow> string \<Rightarrow> candidate option" where
  "extractFromQuery env u =
     (case urlSearchParams env u of
        None \<Rightarrow> None
      | Some q \<Rightarrow>
          (case map_of q ''SAMLResponse'' of
             Some v \<Rightarrow> Some \<lparr>c_name = ''SAMLResponse'', c_value = v, c_transport = ''GET''\<rparr>
           | None \<Rightarrow>
               (case map_of q ''SAMLRequest'' of
                  Some v \<Rightarrow> Some \<lparr>c_name = ''SAMLRequest'', c_value = v, c_transport = ''GET''\<rparr>
                | None \<Rightarrow>
                    (case map_of q ''SAMLart'' of
                       Some v \<Rightarrow>
                         Some \<lparr>c_name = ''SAMLArtifact'', c_value = v, c_transport = ''GET''\<rparr>
                     | None \<Rightarrow> None))))"

text \<open>
  \<^verbatim>\<open>fd.X && fd.X[0]\<close>: the first value of form field \<^verbatim>\<open>X\<close> when the field is there and
  that value is a non-empty string.
\<close>

definition firstValue :: "(string \<times> string list) list \<Rightarrow> string \<Rightarrow> string option" where
  "firstValue fd n =
     (case map_of fd n of
        Some (v # vs) \<Rightarrow> if v \<noteq> [] then Some v else None
      | _ \<Rightarrow> None)"

definition extractFromFormData :: "details \<Rightarrow> candidate option" where
  "extractFromFormData dt =
     (case d_requestBody dt of
        None \<Rightarrow> None
      | Some body \<Rightarrow>
          (case formData body of
             None \<Rightarrow> None
           | Some fd \<Rightarrow>
               (case firstValue fd ''SAMLResponse'' of
                  Some v \<Rightarrow>
                    Some \<lparr>c_name = ''SAMLResponse'', c_value = v, c_transport = ''POST''\<rparr>
                | None \<Rightarrow>
                    (case firstValue fd ''SAMLRequest'' of
                       Some v \<Rightarrow>
                         Some \<lparr>c_name = ''SAMLRequest'', c_value = v, c_transport = ''POST''\<rparr>
                     | None \<Rightarrow>
                         (case firstValue fd ''SAMLart'' of
                            Some v \<Rightarrow>
                              Some \<lparr>c_name = ''SAMLArtifact'', c_value = v,
                                    c_transport = ''POST''\<rparr>
                          | None \<Rightarrow> None)))))"

text \<open>The loop over \<^verbatim>\<open>foundJSON\<close> (lines 231-236): the first item whose value passes.\<close>

fun firstBase64Item :: "(string \<times> string) list \<Rightarrow> candidate option" where
  "firstBase64Item [] = None"
| "firstBase64Item ((n, v) # items) =
     (if looksLikeBase64 v then
        Some \<lparr>c_name =
                (if n \<noteq> [] \<and> includesStr (toLowerCase n) ''request'' then ''SAMLRequest''
                 else if n \<noteq> [] \<and> includesStr (toLowerCase n) ''response'' then ''SAMLResponse''
                 else ''SAMLBase64''),
              c_value = v, c_transport = ''JSON''\<rparr>
      else firstBase64Item items)"

text \<open>\<^verbatim>\<open>extractFromBody\<close> (lines 218-244); the test \<^verbatim>\<open>/samlp?:/i\<close> is a search.\<close>

definition extractFromBody :: "host \<Rightarrow> details \<Rightarrow> candidate option" where
  "extractFromBody env dt =
     (case extractFromFormData dt of
        Some f \<Rightarrow> Some f
      | None \<Rightarrow>
          (case decodeRawBody env dt of
             None \<Rightarrow> None
           | Some rawText \<Rightarrow>
               (case (case extractSAMLFromJSONText env rawText of
                        None \<Rightarrow> None
                      | Some foundJSON \<Rightarrow> firstBase64Item foundJSON) of
                  Some f \<Rightarrow> Some f
                | None \<Rightarrow>
                    if looksLikeXML rawText \<and>
                       (includesStr (toLowerCase rawText) ''saml:'' \<or>
                        includesStr (toLowerCase rawText) ''samlp:'')
                    then Some \<lparr>c_name = ''SAML-XML'', c_value = rawText, c_transport = ''SOAP''\<rparr>
                    else None)))"

subsection \<open>JavaScript truthiness of the values that are tested\<close>

text \<open>An optional string is truthy when it is present and not empty.\<close>

fun truthyStr :: "string option \<Rightarrow> bool" where
  "truthyStr None = False"
| "truthyStr (Some s) = (s \<noteq> [])"

subsection \<open>Message store\<close>

definition makeDedupKey :: "string \<Rightarrow> string \<Rightarrow> string" where
  "makeDedupKey k x = k @ ''|'' @ x"

text \<open>
  \<^verbatim>\<open>addMessage\<close> (lines 397-425) returns the session and the boolean result. The
  \<^verbatim>\<open>shift\<close> of an empty array cannot happen after a \<^verbatim>\<open>push\<close>; that branch leaves
  the session as it is.
\<close>

definition registerRequestId :: "message \<Rightarrow> session \<Rightarrow> session" where
  "registerRequestId entry s =
     (case requestId entry of
        Some r \<Rightarrow>
          if r \<noteq> [] then s\<lparr>requestIdToMessageId := (requestIdToMessageId s)(r \<mapsto> id_msg entry)\<rparr>
          else s
      | None \<Rightarrow> s)"

definition unregisterRequestId :: "message \<Rightarrow> session \<Rightarrow> session" where
  "unregisterRequestId removed s =
     (case requestId removed of
        Some r \<Rightarrow>
          if r \<noteq> [] then s\<lparr>requestIdToMessageId := (requestIdToMessageId s)(r := None)\<rparr>
          else s
      | None \<Rightarrow> s)"

definition enforceLimit :: "session \<Rightarrow> session" where
  "enforceLimit s =
     (if length (messages s) > MAX_MESSAGES then
        (case messages s of
           [] \<Rightarrow> s
         | removed # rest \<Rightarrow>
             unregisterRequestId removed
               (s\<lparr>messages := rest,
                  seenKeys := seenKeys s - {makeDedupKey (kind removed) (xml removed)}\<rparr>))
      else s)"

definition addMessage :: "session \<Rightarrow> message \<Rightarrow> session \<times> bool" where
  "addMessage s entry =
     (let key = makeDedupKey (kind entry) (xml entry) in
      if key \<in> seenKeys s then (s, False)
      else
        (enforceLimit
           (registerRequestId entry
              (s\<lparr>seenKeys := insert key (seenKeys s), messages := messages s @ [entry]\<rparr>)),
         True))"

text \<open>The body of the \<^verbatim>\<open>clearMessages\<close> case (lines 598-599) on the session found.\<close>

definition clearSession :: "session \<Rightarrow> session" where
  "clearSession s = s\<lparr>messages := [], seenKeys := {}\<rparr>"

subsection \<open>Session registry and tab tracker\<close>

definition getSessionByWindowId :: "sessions \<Rightarrow> int \<Rightarrow> session option" where
  "getSessionByWindowId ss wid = map_of ss wid"

text \<open>
  \<^verbatim>\<open>getSessionByTabId\<close> (lines 38-45) returns the first session, in the map's order,
  that tracks the tab; the model returns it with the key it is stored under, so that a
  caller's mutation of the object can be written back with \<open>putSession\<close>.
\<close>

fun getSessionByTabId :: "sessions \<Rightarrow> int \<Rightarrow> (int \<times> session) option" where
  "getSessionByTabId [] t = None"
| "getSessionByTabId ((wid, s) # rest) t =
     (if t \<in> trackedTabIds s then Some (wid, s) else getSessionByTabId rest t)"

definition putSession :: "int \<Rightarrow> session \<Rightarrow> sessions \<Rightarrow> sessions" where
  "putSession wid s' ss = map (\<lambda>(k, s). if k = wid then (k, s') else (k, s)) ss"

text \<open>\<^verbatim>\<open>sessions.set\<close> and \<^verbatim>\<open>sessions.delete\<close>.\<close>

definition setSession :: "int \<Rightarrow> session \<Rightarrow> sessions \<Rightarrow> sessions" where
  "setSession wid s ss =
     (if wid \<in> fst ` set ss then putSession wid s ss else ss @ [(wid, s)])"

definition deleteSession :: "int \<Rightarrow> sessions \<Rightarrow> sessions" where
  "deleteSession wid ss = filter (\<lambda>(k, s). k \<noteq> wid) ss"

text \<open>A \<^verbatim>\<open>tabs.Tab\<close>: its id and, when it has one, the id of the tab that opened it.\<close>

record tab =
  t_id :: int
  openerTabId :: "int option"

text \<open>\<^verbatim>\<open>onTabCreated\<close> (lines 47-57); an opener id of 0 is falsy.\<close>

definition onTabCreated :: "sessions \<Rightarrow> tab \<Rightarrow> sessions" where
  "onTabCreated ss tb =
     (if length ss = 0 then ss
      else
        (case openerTabId tb of
           None \<Rightarrow> ss
         | Some opener \<Rightarrow>
             if opener = 0 then ss
             else
               (case getSessionByTabId ss opener of
                  None \<Rightarrow> ss
                | Some (wid, s) \<Rightarrow>
                    putSession wid (s\<lparr>trackedTabIds := insert (t_id tb) (trackedTabIds s)\<rparr>) ss)))"

text \<open>\<^verbatim>\<open>onTabRemoved\<close> (lines 59-65).\<close>

definition onTabRemoved :: "sessions \<Rightarrow> int \<Rightarrow> sessions" where
  "onTabRemoved ss t =
     (case getSessionByTabId ss t of
        None \<Rightarrow> ss
      | Some (wid, s) \<Rightarrow> putSession wid (s\<lparr>trackedTabIds := trackedTabIds s - {t}\<rparr>) ss)"

text \<open>\<^verbatim>\<open>startCapture\<close> (lines 67-81) and \<^verbatim>\<open>stopCapture\<close> (lines 83-95) on the map.\<close>

definition startCapture :: "sessions \<Rightarrow> int \<Rightarrow> int \<Rightarrow> sessions" where
  "startCapture ss wid root = setSession wid ((createSession wid root)\<lparr>isCapturing := True\<rparr>) ss"

definition stopCapture :: "sessions \<Rightarrow> int \<Rightarrow> sessions" where
  "stopCapture ss wid = deleteSession wid ss"

subsection \<open>Handlers of network events\<close>

text \<open>Assignment \<^verbatim>\<open>obj[name] = value\<close> on a plain object.\<close>

fun objSet :: "string \<Rightarrow> string option \<Rightarrow> headerObject \<Rightarrow> headerObject" where
  "objSet n v [] = [(n, v)]"
| "objSet n v ((k, w) # rest) = (if k = n then (k, v) # rest else (k, w) # objSet n v rest)"

definition filterHeaders :: "string list \<Rightarrow> header list option \<Rightarrow> headerObject" where
  "filterHeaders allow hs =
     (case hs of
        None \<Rightarrow> []
      | Some l \<Rightarrow>
          foldl (\<lambda>obj h. if toLowerCase (h_name h) \<in> set allow
                          then objSet (h_name h) (h_value h) obj else obj) [] l)"

text \<open>The RelayState of lines 256-264.\<close>

definition extractRelayState :: "host \<Rightarrow> details \<Rightarrow> string option" where
  "extractRelayState env dt =
     (let fromUrl = (case urlSearchParams env (d_url dt) of
                       None \<Rightarrow> None
                     | Some q \<Rightarrow> map_of q ''RelayState'')
      in if \<not> truthyStr fromUrl then
           (case d_requestBody dt of
              None \<Rightarrow> fromUrl
            | Some body \<Rightarrow>
                (case formData body of
                   None \<Rightarrow> fromUrl
                 | Some fd \<Rightarrow>
                     (case map_of fd ''RelayState'' of
                        None \<Rightarrow> None
                      | Some [] \<Rightarrow> None
                      | Some (v # vs) \<Rightarrow> Some v)))
         else fromUrl)"

text \<open>
  The entry that \<^verbatim>\<open>handlePossibleSAML\<close> (lines 252-371) builds for an exchange, if it
  builds one, given the id that \<^verbatim>\<open>session.nextMessageId++\<close> yields and the time stamp
  that \<^verbatim>\<open>new Date().toISOString()\<close> yields.
\<close>

definition possibleSAMLEntry :: "host \<Rightarrow> string \<Rightarrow> nat \<Rightarrow> details \<Rightarrow> message option" where
  "possibleSAMLEntry env now i dt =
     (case (case extractFromQuery env (d_url dt) of
              Some f \<Rightarrow> Some f
            | None \<Rightarrow> extractFromBody env dt) of
        None \<Rightarrow> None
      | Some found \<Rightarrow>
          (let rs = extractRelayState env dt;
               rh = filterHeaders [''content-type'', ''accept'', ''authorization'', ''user-agent'']
                      (d_requestHeaders dt)
           in
           if c_name found = ''SAMLArtifact'' then
             Some \<lparr>id_msg = i, kind = ''SAMLArtifact'', transport = c_transport found,
                   url = d_url dt, time = now, xml = makeArtifactXML (c_value found),
                   tabId = d_tabId dt, source = Some ''artifact'',
                   base64 = Some (c_value found), encoding = Some ''artifact'',
                   relayState = rs, httpMethod = Some (d_method dt), requestHeaders = Some rh,
                   requestId = Some (d_requestId dt), statusCode = None,
                   responseHeaders = None\<rparr>
           else if c_transport found = ''JSON'' then
             (case decodeSAML env (c_value found) False of
                None \<Rightarrow> None
              | Some xmlJson \<Rightarrow>
                  (let trimmedJ = trim xmlJson in
                   if \<not> looksLikeXML trimmedJ then None
                   else
                     Some \<lparr>id_msg = i,
                           kind = (if c_name found = ''SAMLRequest'' \<or>
                                      c_name found = ''SAMLResponse''
                                   then c_name found else ''SAML''),
                           transport = ''JSON'', url = d_url dt, time = now, xml = trimmedJ,
                           tabId = d_tabId dt, source = Some ''json-body'',
                           base64 = Some (c_value found), encoding = Some ''base64'',
                           relayState = rs, httpMethod = Some (d_method dt),
                           requestHeaders = Some rh, requestId = Some (d_requestId dt),
                           statusCode = None, responseHeaders = None\<rparr>))
           else if c_transport found = ''SOAP'' \<and> looksLikeXML (c_value found) then
             Some \<lparr>id_msg = i, kind = ''SAML-XML'', transport = ''SOAP'', url = d_url dt,
                   time = now, xml = trim (c_value found), tabId = d_tabId dt,
                   source = Some ''soap-xml'', base64 = None, encoding = Some ''none'',
                   relayState = rs, httpMethod = Some (d_method dt), requestHeaders = Some rh,
                   requestId = Some (d_requestId dt), statusCode = None,
                   responseHeaders = None\<rparr>
           else
             (let tryInflate = (c_name found = ''SAMLRequest'') in
              case decodeSAML env (c_value found) tryInflate of
                None \<Rightarrow> None
              | Some x \<Rightarrow>
                  if length (trim x) = 0 then None
                  else
                    (let trimmed = trim x in
                     if \<not> looksLikeXML trimmed then None
                     else
                       Some \<lparr>id_msg = i, kind = c_name found, transport = c_transport found,
                             url = d_url dt, time = now, xml = trimmed, tabId = d_tabId dt,
                             source = None, base64 = Some (c_value found),
                             encoding = Some (if tryInflate then ''deflate-raw'' else ''base64''),
                             relayState = rs, httpMethod = Some (d_method dt),
                             requestHeaders = Some rh, requestId = Some (d_requestId dt),
                             statusCode = None, responseHeaders = None\<rparr>))))"

text \<open>
  Storing an entry built with \<^verbatim>\<open>id: session.nextMessageId++\<close>: the counter is advanced
  when the literal is evaluated, before \<^verbatim>\<open>addMessage\<close> runs, whether or not the entry is
  then dropped as a duplicate.
\<close>

definition storeEntry :: "session \<Rightarrow> (nat \<Rightarrow> message option) \<Rightarrow> session \<times> bool" where
  "storeEntry s build =
     (case build (nextMessageId s) of
        None \<Rightarrow> (s, False)
      | Some entry \<Rightarrow> addMessage (s\<lparr>nextMessageId := nextMessageId s + 1\<rparr>) entry)"

text \<open>
  \<^verbatim>\<open>handlePossibleSAML\<close> (lines 246-376). The session is looked up first; what follows
  the \<^verbatim>\<open>await\<close> (taking the id, \<^verbatim>\<open>addMessage\<close>) runs without interruption on that
  session object, and is one step here.
\<close>

definition handlePossibleSAML :: "host \<Rightarrow> string \<Rightarrow> sessions \<Rightarrow> details \<Rightarrow> sessions" where
  "handlePossibleSAML env now ss dt =
     (case getSessionByTabId ss (d_tabId dt) of
        None \<Rightarrow> ss
      | Some (wid, s) \<Rightarrow>
          putSession wid (fst (storeEntry s (\<lambda>i. possibleSAMLEntry env now i dt))) ss)"

text \<open>\<^verbatim>\<open>handleHeaderValue\<close> (lines 533-552): the entry it builds, and the function.\<close>

definition headerEntry ::
  "host \<Rightarrow> string \<Rightarrow> nat \<Rightarrow> details \<Rightarrow> string \<Rightarrow> string \<Rightarrow> bool \<Rightarrow> message option" where
  "headerEntry env now i dt headerName b64Value isRequest =
     (let k = (if includesStr (toLowerCase headerName) ''response'' then ''SAMLResponse''
               else if includesStr (toLowerCase headerName) ''request'' then ''SAMLRequest''
               else ''SAML'')
      in case decodeSAML env b64Value (k = ''SAMLRequest'') of
           None \<Rightarrow> None
         | Some x \<Rightarrow>
             if \<not> looksLikeXML x then None
             else
               Some \<lparr>id_msg = i, kind = k,
                     transport = (if isRequest then ''HEADER(req)'' else ''HEADER(res)''),
                     url = d_url dt, time = now, xml = trim x, tabId = d_tabId dt,
                     source = Some ''header'', base64 = None, encoding = None,
                     relayState = None, httpMethod = None, requestHeaders = None,
                     requestId = None, statusCode = None, responseHeaders = None\<rparr>)"

definition handleHeaderValue ::
  "host \<Rightarrow> string \<Rightarrow> session \<Rightarrow> details \<Rightarrow> string \<Rightarrow> string \<Rightarrow> bool \<Rightarrow> session" where
  "handleHeaderValue env now s dt headerName b64Value isRequest =
     fst (storeEntry s (\<lambda>i. headerEntry env now i dt headerName b64Value isRequest))"

text \<open>
  \<^verbatim>\<open>tryHandleHeaderSAML\<close> (lines 509-531). The calls of \<^verbatim>\<open>handleHeaderValue\<close> all
  receive the session object found at the start. They are asynchronous and not awaited:
  each one, once its decoding is done, takes its id and stores its entry in one
  uninterrupted step, and these steps may come in another order than the headers and
  between the steps of other events. The function below takes them in the order of the
  headers; a run in which they complete otherwise is the run of the same steps as
  separate events, one header each, in that order.
\<close>

definition headerStep ::
  "host \<Rightarrow> string \<Rightarrow> details \<Rightarrow> bool \<Rightarrow> session \<Rightarrow> header \<Rightarrow> session" where
  "headerStep env now dt isRequest s h =
     (let name = h_name h;
          v = (case h_value h of None \<Rightarrow> [] | Some x \<Rightarrow> x)
      in if v = [] then s
         else if toLowerCase name = ''samlresponse'' \<or> toLowerCase name = ''samlrequest''
           then handleHeaderValue env now s dt name v isRequest
         else if looksLikeBase64 v then handleHeaderValue env now s dt name v isRequest
         else s)"

definition tryHandleHeaderSAML ::
  "host \<Rightarrow> string \<Rightarrow> sessions \<Rightarrow> details \<Rightarrow> bool \<Rightarrow> sessions" where
  "tryHandleHeaderSAML env now ss dt isRequest =
     (case getSessionByTabId ss (d_tabId dt) of
        None \<Rightarrow> ss
      | Some (wid, s) \<Rightarrow>
          (case (if isRequest then d_requestHeaders dt else d_responseHeaders dt) of
             None \<Rightarrow> ss
           | Some hdrs \<Rightarrow> putSession wid (foldl (headerStep env now dt isRequest) s hdrs) ss))"

text \<open>
  \<^verbatim>\<open>attachResponseData\<close> (lines 479-507). \<open>attachTo\<close> is the assignment to the first
  message that \<^verbatim>\<open>find\<close> returns; \<open>attachResponse\<close> is the function after the session
  lookup. A message id of 0 is falsy.
\<close>

fun attachTo :: "nat \<Rightarrow> int option \<Rightarrow> headerObject \<Rightarrow> message list \<Rightarrow> message list option" where
  "attachTo i sc rh [] = None"
| "attachTo i sc rh (m # ms) =
     (if id_msg m = i then Some (m\<lparr>statusCode := sc, responseHeaders := Some rh\<rparr> # ms)
      else map_option (\<lambda>r. m # r) (attachTo i sc rh ms))"

definition attachResponse :: "session \<Rightarrow> details \<Rightarrow> session" where
  "attachResponse s dt =
     (case requestIdToMessageId s (d_requestId dt) of
        None \<Rightarrow> s
      | Some messageId \<Rightarrow>
          if messageId = 0 then s
          else
            (case attachTo messageId (d_statusCode dt)
                    (filterHeaders [''content-type'', ''location'', ''set-cookie'']
                       (d_responseHeaders dt))
                    (messages s) of
               None \<Rightarrow> s
             | Some ms \<Rightarrow> s\<lparr>messages := ms\<rparr>))"

definition attachResponseData :: "sessions \<Rightarrow> details \<Rightarrow> sessions" where
  "attachResponseData ss dt =
     (case getSessionByTabId ss (d_tabId dt) of
        None \<Rightarrow> ss
      | Some (wid, s) \<Rightarrow> putSession wid (attachResponse s dt) ss)"

subsection \<open>Control messages\<close>

text \<open>The \<^verbatim>\<open>startCapture\<close>, \<^verbatim>\<open>clearMessages\<close> cases of the message listener.\<close>

definition startCaptureMessage :: "sessions \<Rightarrow> int \<Rightarrow> int \<Rightarrow> sessions" where
  "startCaptureMessage ss wid t =
     (case getSessionByWindowId ss wid of
        None \<Rightarrow> startCapture ss wid t
      | Some s \<Rightarrow> ss)"

definition clearMessages :: "sessions \<Rightarrow> int \<Rightarrow> sessions" where
  "clearMessages ss wid =
     (case getSessionByWindowId ss wid of
        None \<Rightarrow> ss
      | Some s \<Rightarrow> putSession wid (clearSession s) ss)"

text \<open>
  \<^verbatim>\<open>guessKindFromXML\<close> (lines 554-559). \<open>matchWord w p t\<close> is the test
  \<^verbatim>\<open>/\bw\b/i\<close> on \<open>t\<close> for a lower-case word \<open>w\<close>, \<open>p\<close> telling whether the
  character before \<open>t\<close> is a word character.
\<close>

definition isWordChar :: "char \<Rightarrow> bool" where
  "isWordChar c =
     (let n = (of_char c :: nat) in
      (48 \<le> n \<and> n \<le> 57) \<or> (65 \<le> n \<and> n \<le> 90) \<or> n = 95 \<or> (97 \<le> n \<and> n \<le> 122))"

fun matchWord :: "string \<Rightarrow> bool \<Rightarrow> string \<Rightarrow> bool" where
  "matchWord w p [] = False"
| "matchWord w p (c # cs) =
     ((\<not> p \<and> startsWith (toLowerCase (c # cs)) w \<and>
       (case drop (length w) (c # cs) of [] \<Rightarrow> True | d # ds \<Rightarrow> \<not> isWordChar d))
      \<or> matchWord w (isWordChar c) cs)"

definition guessKindFromXML :: "string \<Rightarrow> string" where
  "guessKindFromXML x =
     (let t = take XML_DETECTION_PREVIEW_LENGTH x in
      if matchWord ''authnrequest'' False t then ''SAMLRequest''
      else if matchWord ''response'' False t then ''SAMLResponse''
      else ''SAML-XML'')"

text \<open>
  The \<^verbatim>\<open>importMessages\<close> case (lines 605-637). Items arrive as structured clones, that
  is as JSON-like values. \<open>itemXml\<close> is \<^verbatim>\<open>(it && (it.xml || it)) || ''\<close>, a missing
  property being \<^const>\<open>JNull\<close>. A truthy value that is not a string has no \<^verbatim>\<open>trim\<close>
  method: \<^verbatim>\<open>looksLikeXML\<close> throws a \<^verbatim>\<open>TypeError\<close>, the loop ends and the listener
  rejects; what was imported before stays.
\<close>

datatype jsError = TypeError

fun truthy :: "json \<Rightarrow> bool" where
  "truthy JNull = False"
| "truthy (JBool b) = b"
| "truthy (JNumber n) = (n \<noteq> 0)"
| "truthy (JString s) = (s \<noteq> [])"
| "truthy (JArray xs) = True"
| "truthy (JObject es) = True"

definition itemXml :: "json \<Rightarrow> json" where
  "itemXml it =
     (if \<not> truthy it then JString []
      else
        (let x = (case it of
                    JObject es \<Rightarrow> (case map_of es ''xml'' of Some v \<Rightarrow> v | None \<Rightarrow> JNull)
                  | _ \<Rightarrow> JNull)
         in if truthy x then x else it))"

definition importEntry :: "string \<Rightarrow> string \<Rightarrow> nat \<Rightarrow> message option" where
  "importEntry now x i =
     Some \<lparr>id_msg = i, kind = guessKindFromXML x, transport = ''IMPORT'',
           url = ''import://local'', time = now, xml = trim x, tabId = - 1,
           source = Some ''import'', base64 = None, encoding = None, relayState = None,
           httpMethod = None, requestHeaders = None, requestId = None, statusCode = None,
           responseHeaders = None\<rparr>"

fun importItems :: "string \<Rightarrow> session \<Rightarrow> json list \<Rightarrow> nat \<Rightarrow> session \<times> (jsError + nat)" where
  "importItems now s [] imported = (s, Inr imported)"
| "importItems now s (it # items) imported =
     (case itemXml it of
        JString x \<Rightarrow>
          if x = [] \<or> \<not> looksLikeXML x then importItems now s items imported
          else
            (let r = storeEntry s (importEntry now x) in
             importItems now (fst r) items (if snd r then imported + 1 else imported))
      | other \<Rightarrow>
          if \<not> truthy other then importItems now s items imported
          else (s, Inl TypeError))"

definition importMessages ::
  "string \<Rightarrow> sessions \<Rightarrow> int \<Rightarrow> json \<Rightarrow> sessions \<times> (jsError + nat)" where
  "importMessages now ss wid msgItems =
     (let ss1 = (case getSessionByWindowId ss wid of
                   Some s \<Rightarrow> ss
                 | None \<Rightarrow> setSession wid (createSession wid (- 1)) ss);
          items = (case msgItems of JArray xs \<Rightarrow> xs | _ \<Rightarrow> [])
      in case getSessionByWindowId ss1 wid of
           None \<Rightarrow> (ss1, Inr 0)
         | Some s \<Rightarrow>
             (let r = importItems now s items 0 in (putSession wid (fst r) ss1, snd r)))"

subsection \<open>The engine as a transition system\<close>

text \<open>
  Every listener registered by the script, as an event. Each event carries the time
  stamp read while it is handled.
\<close>

datatype event =
    BeforeRequest details
  | BeforeSendHeaders details
  | HeadersReceived details
  | Completed details
  | TabCreated tab
  | TabRemoved int
  | StartCaptureMsg int int
  | StopCaptureMsg int
  | ClearMessagesMsg int
  | ImportMessagesMsg int json
  | WindowRemoved int

fun step :: "host \<Rightarrow> sessions \<Rightarrow> string \<times> event \<Rightarrow> sessions" where
  "step env ss (now, BeforeRequest dt) = handlePossibleSAML env now ss dt"
| "step env ss (now, BeforeSendHeaders dt) = tryHandleHeaderSAML env now ss dt True"
| "step env ss (now, HeadersReceived dt) = tryHandleHeaderSAML env now ss dt False"
| "step env ss (now, Completed dt) = attachResponseData ss dt"
| "step env ss (now, TabCreated tb) = onTabCreated ss tb"
| "step env ss (now, TabRemoved t) = onTabRemoved ss t"
| "step env ss (now, StartCaptureMsg wid t) = startCaptureMessage ss wid t"
| "step env ss (now, StopCaptureMsg wid) = stopCapture ss wid"
| "step env ss (now, ClearMessagesMsg wid) = clearMessages ss wid"
| "step env ss (now, ImportMessagesMsg wid items) = fst (importMessages now ss wid items)"
| "step env ss (now, WindowRemoved wid) =
     (if wid \<in> fst ` set ss then stopCapture ss wid else ss)"

definition run :: "host \<Rightarrow> (string \<times> event) list \<Rightarrow> sessions" where
  "run env evs = foldl (step env) [] evs"

subsection \<open>Derived notions used in the statements\<close>

text \<open>The dedup key of a stored message.\<close>

definition dedupKeyOf :: "message \<Rightarrow> string" where
  "dedupKeyOf m = makeDedupKey (kind m) (xml m)"

text \<open>
  The message store is consistent: the key set is exactly the keys of the stored
  messages, no two stored messages share a key, and the bound holds.
\<close>

definition storeInv :: "session \<Rightarrow> bool" where
  "storeInv s =
     (seenKeys s = set (map dedupKeyOf (messages s)) \<and>
      distinct (map dedupKeyOf (messages s)) \<and>
      length (messages s) \<le> MAX_MESSAGES)"


text \<open>
  Appending a list of messages one after the other, each taking its id from the
  session's counter as the handlers do (\<^verbatim>\<open>id: session.nextMessageId++\<close>, then
  \<^verbatim>\<open>addMessage\<close>). \<open>withIds n es\<close> is the list with the ids \<open>n\<close>, \<open>n + 1\<close>, ...
\<close>

definition appendAll :: "session \<Rightarrow> message list \<Rightarrow> session" where
  "appendAll s es = foldl (\<lambda>acc e. fst (storeEntry acc (\<lambda>i. Some (e\<lparr>id_msg := i\<rparr>)))) s es"

fun withIds :: "nat \<Rightarrow> message list \<Rightarrow> message list" where
  "withIds n [] = []"
| "withIds n (e # es) = e\<lparr>id_msg := n\<rparr> # withIds (Suc n) es"

definition kindAndXml :: "message \<Rightarrow> string \<times> string" where
  "kindAndXml m = (kind m, xml m)"

text \<open>
  The kinds that the code gives to a message: \<^verbatim>\<open>'SAMLArtifact'\<close> (line 282),
  \<^verbatim>\<open>'SAMLRequest'\<close>, \<^verbatim>\<open>'SAMLResponse'\<close> and \<^verbatim>\<open>'SAML'\<close> (lines 308, 359, 535),
  \<^verbatim>\<open>'SAML-XML'\<close> (lines 331, 558).
\<close>

definition knownKind :: "string \<Rightarrow> bool" where
  "knownKind k =
     (k \<in> set [''SAMLRequest'', ''SAMLResponse'', ''SAMLArtifact'', ''SAML-XML'', ''SAML''])"

definition kindsInv :: "session \<Rightarrow> bool" where
  "kindsInv s = list_all (\<lambda>m. knownKind (kind m)) (messages s)"

subsection \<open>Concrete inputs\<close>

text \<open>
  A host without \<^verbatim>\<open>DecompressionStream\<close>, whose text decoder reads each byte as one code
  unit, and whose parsers reject everything.
\<close>

definition plainHost :: host where
  "plainHost =
     \<lparr>inflateRaw = None, utf8Decode = map (\<lambda>b. char_of (unat b)),
      jsonParse = (\<lambda>t. None), urlSearchParams = (\<lambda>u. None)\<rparr>"

definition sampleTime :: string where
  "sampleTime = ''2024-01-01T00:00:00.000Z''"

definition sampleMessage :: "nat \<Rightarrow> string \<Rightarrow> string \<Rightarrow> string \<Rightarrow> string option \<Rightarrow> message" where
  "sampleMessage i k t x r =
     \<lparr>id_msg = i, kind = k, transport = t, url = ''https://idp.example/sso'',
      time = sampleTime, xml = x, tabId = 5, source = None, base64 = None,
      encoding = Some ''base64'', relayState = None, httpMethod = Some ''GET'',
      requestHeaders = Some [], requestId = r, statusCode = None, responseHeaders = None\<rparr>"

text \<open>The session that \<^verbatim>\<open>startCapture(1, 5)\<close> creates.\<close>

definition startedSession :: session where
  "startedSession = (createSession 1 5)\<lparr>isCapturing := True\<rparr>"

text \<open>
  A message, the same kind and XML again with other metadata, and the same XML under
  another kind.
\<close>

definition firstMessage :: message where
  "firstMessage = sampleMessage 1 ''SAMLRequest'' ''GET'' ''<a/>'' (Some ''r1'')"

definition retryMessage :: message where
  "retryMessage = sampleMessage 2 ''SAMLRequest'' ''POST'' ''<a/>'' None"

definition otherKindMessage :: message where
  "otherKindMessage = sampleMessage 3 ''SAMLResponse'' ''GET'' ''<a/>'' (Some ''r3'')"

text \<open>1001 messages with pairwise different XML, and the session holding the first 1000.\<close>

definition numberedMessage :: "nat \<Rightarrow> message" where
  "numberedMessage n =
     sampleMessage 0 ''SAML'' ''GET'' (''<n'' @ replicate n CHR ''i'' @ ''/>'') (Some ''r'')"

definition manyMessages :: "message list" where
  "manyMessages = map numberedMessage [0..<MAX_MESSAGES + 1]"

definition fullSession :: session where
  "fullSession = appendAll (createSession 1 5) (butlast manyMessages)"

text \<open>
  The started session after \<open>firstMessage\<close> was stored, a completed response for its
  request, and one for a request that stored nothing.
\<close>

definition oneMessageSession :: session where
  "oneMessageSession = fst (storeEntry startedSession (\<lambda>i. Some (firstMessage\<lparr>id_msg := i\<rparr>)))"

definition completedDetails :: "string \<Rightarrow> details" where
  "completedDetails r =
     \<lparr>d_tabId = 5, d_url = ''https://idp.example/sso'', d_method = ''GET'', d_requestId = r,
      d_requestBody = None, d_requestHeaders = None,
      d_responseHeaders = Some [\<lparr>h_name = ''Content-Type'', h_value = Some ''text/html''\<rparr>],
      d_statusCode = Some 200\<rparr>"

text \<open>
  A completed response is unknown to a session when its request identifier is not in the
  index, or the indexed message id belongs to no stored message.
\<close>

definition unknownRequest :: "session \<Rightarrow> details \<Rightarrow> bool" where
  "unknownRequest s dt =
     (case requestIdToMessageId s (d_requestId dt) of
        None \<Rightarrow> True
      | Some i \<Rightarrow> i \<notin> set (map id_msg (messages s)))"

text \<open>The events of the tab tracker.\<close>

fun isTabEvent :: "event \<Rightarrow> bool" where
  "isTabEvent (TabCreated tb) = True"
| "isTabEvent (TabRemoved t) = True"
| "isTabEvent other = False"

text \<open>A host whose \<^verbatim>\<open>DecompressionStream\<close> exists and throws on every input.\<close>

definition failingInflateHost :: host where
  "failingInflateHost = plainHost\<lparr>inflateRaw := Some (\<lambda>bs. None)\<rparr>"

text \<open>
  The encoding of redirect- and POST-binding requests: a message with transport GET or
  POST and kind \<^verbatim>\<open>SAMLRequest\<close> records \<^verbatim>\<open>deflate-raw\<close>.
\<close>

definition deflateRecorded :: "message \<Rightarrow> bool" where
  "deflateRecorded m =
     (transport m \<in> {''GET'', ''POST''} \<and> kind m = ''SAMLRequest'' \<longrightarrow>
        encoding m = Some ''deflate-raw'')"

definition deflateInv :: "session \<Rightarrow> bool" where
  "deflateInv s = list_all deflateRecorded (messages s)"

text \<open>
  A host without \<^verbatim>\<open>DecompressionStream\<close> that parses the query string of one URL, and
  a GET request to that URL from tab 5. The parameter is the plain base64 of
  \<^verbatim>\<open><a/>\<close>.
\<close>

definition redirectHost :: host where
  "redirectHost =
     plainHost\<lparr>urlSearchParams :=
       (\<lambda>u. if u = ''https://idp.example/sso?SAMLRequest=PGEvPg%3D%3D''
            then Some [(''SAMLRequest'', ''PGEvPg=='')] else None)\<rparr>"

definition redirectDetails :: details where
  "redirectDetails =
     \<lparr>d_tabId = 5, d_url = ''https://idp.example/sso?SAMLRequest=PGEvPg%3D%3D'',
      d_method = ''GET'', d_requestId = ''r1'', d_requestBody = None,
      d_requestHeaders = None, d_responseHeaders = None, d_statusCode = None\<rparr>"

definition redirectSession :: session where
  "redirectSession =
     fst (storeEntry startedSession (\<lambda>i. possibleSAMLEntry redirectHost sampleTime i redirectDetails))"

text \<open>
  Correlation is consistent: ids are below the counter; an index entry points at an id
  below the counter, and a stored message with that id has a request identifier; a
  message of the header or import transports has no request identifier, every other
  message has one of the query/body transports and the request identifier of its
  exchange; a message without a usable request identifier has no response data.
\<close>

definition uncorrelatedTransport :: "string \<Rightarrow> bool" where
  "uncorrelatedTransport t = (t \<in> {''HEADER(req)'', ''HEADER(res)'', ''IMPORT''})"

definition correlationInv :: "session \<Rightarrow> bool" where
  "correlationInv s =
     ((\<forall>m \<in> set (messages s). id_msg m < nextMessageId s) \<and>
      (\<forall>r i. requestIdToMessageId s r = Some i \<longrightarrow>
         i < nextMessageId s \<and>
         (\<forall>m \<in> set (messages s). id_msg m = i \<longrightarrow> truthyStr (requestId m))) \<and>
      (\<forall>m \<in> set (messages s).
         (uncorrelatedTransport (transport m) \<longrightarrow> requestId m = None) \<and>
         (\<not> uncorrelatedTransport (transport m) \<longrightarrow>
            transport m \<in> {''GET'', ''POST'', ''JSON'', ''SOAP''} \<and> requestId m \<noteq> None)) \<and>
      (\<forall>m \<in> set (messages s).
         \<not> truthyStr (requestId m) \<longrightarrow> statusCode m = None \<and> responseHeaders m = None))"

text \<open>
  A request from tab 5 carrying the header \<^verbatim>\<open>SAMLResponse\<close> with the base64 of
  \<^verbatim>\<open><a/>\<close>, and the session after that header was handled.
\<close>

definition headerDetails :: details where
  "headerDetails =
     \<lparr>d_tabId = 5, d_url = ''https://sp.example/acs'', d_method = ''GET'', d_requestId = ''r1'',
      d_requestBody = None,
      d_requestHeaders = Some [\<lparr>h_name = ''SAMLResponse'', h_value = Some ''PGEvPg==''\<rparr>],
      d_responseHeaders = None, d_statusCode = None\<rparr>"

definition headerSession :: session where
  "headerSession =
     handleHeaderValue plainHost sampleTime startedSession headerDetails
       ''SAMLResponse'' ''PGEvPg=='' True"

text \<open>The session of the redirect request after its response completed.\<close>

definition answeredSession :: session where
  "answeredSession = attachResponse redirectSession (completedDetails ''r1'')"

text \<open>
  Two JSON bodies with the same two string fields in either order: an unrelated token
  that looks like base64, and \<^verbatim>\<open>samlResponse\<close> with the base64 of
  \<^verbatim>\<open><samlp:Response/>\<close>. \<open>jsonHost\<close> parses these and the two texts below, giving the
  object's pairs as \<^verbatim>\<open>Object.entries\<close> lists them.
\<close>

definition quoted :: "string \<Rightarrow> string" where
  "quoted s = [CHR 0x22] @ s @ [CHR 0x22]"

definition tokenFirstText :: string where
  "tokenFirstText =
     ''{'' @ quoted ''token'' @ '':'' @ quoted ''AAAAAAAAAAAAAAAA'' @ '','' @
     quoted ''samlResponse'' @ '':'' @ quoted ''PHNhbWxwOlJlc3BvbnNlLz4='' @ ''}''"

definition samlFirstText :: string where
  "samlFirstText =
     ''{'' @ quoted ''samlResponse'' @ '':'' @ quoted ''PHNhbWxwOlJlc3BvbnNlLz4='' @ '','' @
     quoted ''token'' @ '':'' @ quoted ''AAAAAAAAAAAAAAAA'' @ ''}''"

definition tokenFirstObject :: json where
  "tokenFirstObject =
     JObject [(''token'', JString ''AAAAAAAAAAAAAAAA''),
              (''samlResponse'', JString ''PHNhbWxwOlJlc3BvbnNlLz4='')]"

definition samlFirstObject :: json where
  "samlFirstObject =
     JObject [(''samlResponse'', JString ''PHNhbWxwOlJlc3BvbnNlLz4=''),
              (''token'', JString ''AAAAAAAAAAAAAAAA'')]"

text \<open>
  A body whose SAML-named field comes first in the document, followed by a token under
  the integer-like key \<^verbatim>\<open>1\<close>, which \<^verbatim>\<open>Object.entries\<close> lists first; and a body with
  two SAML-named fields, the first of which does not look like base64.
\<close>

definition intKeyText :: string where
  "intKeyText =
     ''{'' @ quoted ''samlResponse'' @ '':'' @ quoted ''PHNhbWxwOlJlc3BvbnNlLz4='' @ '','' @
     quoted ''1'' @ '':'' @ quoted ''AAAAAAAAAAAAAAAA'' @ ''}''"

definition intKeyObject :: json where
  "intKeyObject =
     JObject [(''1'', JString ''AAAAAAAAAAAAAAAA''),
              (''samlResponse'', JString ''PHNhbWxwOlJlc3BvbnNlLz4='')]"

definition skippedText :: string where
  "skippedText =
     ''{'' @ quoted ''samlRequest'' @ '':'' @ quoted ''n/a'' @ '','' @
     quoted ''samlResponse'' @ '':'' @ quoted ''PHNhbWxwOlJlc3BvbnNlLz4='' @ ''}''"

definition skippedObject :: json where
  "skippedObject =
     JObject [(''samlRequest'', JString ''n/a''),
              (''samlResponse'', JString ''PHNhbWxwOlJlc3BvbnNlLz4='')]"

definition jsonHost :: host where
  "jsonHost =
     plainHost\<lparr>jsonParse :=
       (\<lambda>t. if t = tokenFirstText then Some tokenFirstObject
            else if t = samlFirstText then Some samlFirstObject
            else if t = intKeyText then Some intKeyObject
            else if t = skippedText then Some skippedObject else None)\<rparr>"

definition jsonDetails :: "string \<Rightarrow> details" where
  "jsonDetails body =
     \<lparr>d_tabId = 5, d_url = ''https://sp.example/api/login'', d_method = ''POST'',
      d_requestId = ''r2'',
      d_requestBody = Some \<lparr>formData = None, raw = Some [Some (map of_char body)]\<rparr>,
      d_requestHeaders = None, d_responseHeaders = None, d_statusCode = None\<rparr>"

text \<open>The name that the loop over \<^verbatim>\<open>foundJSON\<close> gives to a candidate found under a field name.\<close>

definition jsonCandidateName :: "string \<Rightarrow> string" where
  "jsonCandidateName k =
     (if k \<noteq> [] \<and> includesStr (toLowerCase k) ''request'' then ''SAMLRequest''
      else if k \<noteq> [] \<and> includesStr (toLowerCase k) ''response'' then ''SAMLResponse''
      else ''SAMLBase64'')"

text \<open>
  What the round trip needs of a string, on the level of six-bit values: after the
  padding is removed every character is of the alphabet and the length is not 1 modulo
  4, the decoded values are bytes, and encoding them gives the string back.
\<close>

definition roundTrips :: "string \<Rightarrow> bool" where
  "roundTrips b =
     (list_all isBase64Char (stripPadding b) \<and> length (stripPadding b) mod 4 \<noteq> 1 \<and>
      (\<forall>n \<in> set (decodeSextets (map sextet (stripPadding b))). n < 256) \<and>
      encodeSextets (decodeSextets (map sextet (stripPadding b))) = b)"

section \<open>Verification\<close>

subsection \<open>The message store keeps its invariant\<close>

lemma registerRequestId_fields [simp]:
  "messages (registerRequestId e s) = messages s"
  "seenKeys (registerRequestId e s) = seenKeys s"
  "nextMessageId (registerRequestId e s) = nextMessageId s"
  "trackedTabIds (registerRequestId e s) = trackedTabIds s"
  "rootTabId (registerRequestId e s) = rootTabId s"
  by (simp_all add: registerRequestId_def split: option.splits)

lemma unregisterRequestId_fields [simp]:
  "messages (unregisterRequestId e s) = messages s"
  "seenKeys (unregisterRequestId e s) = seenKeys s"
  "nextMessageId (unregisterRequestId e s) = nextMessageId s"
  "trackedTabIds (unregisterRequestId e s) = trackedTabIds s"
  "rootTabId (unregisterRequestId e s) = rootTabId s"
  by (simp_all add: unregisterRequestId_def split: option.splits)

lemma enforceLimit_messages:
  "messages (enforceLimit s) =
     (if length (messages s) > MAX_MESSAGES then tl (messages s) else messages s)"
  by (cases "messages s") (simp_all add: enforceLimit_def MAX_MESSAGES_def)

lemma enforceLimit_seenKeys:
  "seenKeys (enforceLimit s) =
     (if length (messages s) > MAX_MESSAGES then seenKeys s - {dedupKeyOf (hd (messages s))}
      else seenKeys s)"
  by (cases "messages s") (simp_all add: enforceLimit_def MAX_MESSAGES_def dedupKeyOf_def)

lemma enforceLimit_other [simp]:
  "nextMessageId (enforceLimit s) = nextMessageId s"
  "trackedTabIds (enforceLimit s) = trackedTabIds s"
  "rootTabId (enforceLimit s) = rootTabId s"
  by (simp_all add: enforceLimit_def split: list.splits)

lemma addMessage_dup:
  "dedupKeyOf e \<in> seenKeys s \<Longrightarrow> addMessage s e = (s, False)"
  by (simp add: addMessage_def dedupKeyOf_def)

lemma addMessage_new_snd:
  "dedupKeyOf e \<notin> seenKeys s \<Longrightarrow> snd (addMessage s e)"
  by (simp add: addMessage_def dedupKeyOf_def)

lemma addMessage_snd_iff: "snd (addMessage s e) = (dedupKeyOf e \<notin> seenKeys s)"
  by (simp add: addMessage_def dedupKeyOf_def Let_def)

lemma addMessage_new_messages:
  "dedupKeyOf e \<notin> seenKeys s \<Longrightarrow>
   messages (fst (addMessage s e)) =
     (if length (messages s) \<ge> MAX_MESSAGES then tl (messages s @ [e]) else messages s @ [e])"
  by (auto simp add: addMessage_def dedupKeyOf_def enforceLimit_messages)

lemma addMessage_new_seenKeys:
  "dedupKeyOf e \<notin> seenKeys s \<Longrightarrow>
   seenKeys (fst (addMessage s e)) =
     (if length (messages s) \<ge> MAX_MESSAGES
      then insert (dedupKeyOf e) (seenKeys s) - {dedupKeyOf (hd (messages s @ [e]))}
      else insert (dedupKeyOf e) (seenKeys s))"
  by (auto simp add: addMessage_def dedupKeyOf_def enforceLimit_seenKeys)

lemma addMessage_other [simp]:
  "nextMessageId (fst (addMessage s e)) = nextMessageId s"
  "trackedTabIds (fst (addMessage s e)) = trackedTabIds s"
  "rootTabId (fst (addMessage s e)) = rootTabId s"
  by (simp_all add: addMessage_def Let_def)

lemma storeInv_addMessage:
  assumes "storeInv s"
  shows "storeInv (fst (addMessage s e))"
proof (cases "dedupKeyOf e \<in> seenKeys s")
  case True
  then show ?thesis using assms by (simp add: addMessage_dup)
next
  case False
  note new = addMessage_new_messages[OF False] addMessage_new_seenKeys[OF False]
  show ?thesis
  proof (cases "length (messages s) \<ge> MAX_MESSAGES")
    case full: True
    then obtain m ms where ms: "messages s = m # ms"
      by (cases "messages s") (auto simp: MAX_MESSAGES_def)
    from assms False ms have k: "dedupKeyOf m \<notin> set (map dedupKeyOf ms)"
      "dedupKeyOf e \<noteq> dedupKeyOf m" "dedupKeyOf e \<notin> set (map dedupKeyOf ms)"
      "distinct (map dedupKeyOf ms)" "seenKeys s = insert (dedupKeyOf m) (set (map dedupKeyOf ms))"
      "length ms < MAX_MESSAGES"
      by (auto simp: storeInv_def)
    have "insert (dedupKeyOf e) (insert (dedupKeyOf m) (set (map dedupKeyOf ms))) - {dedupKeyOf m}
          = insert (dedupKeyOf e) (set (map dedupKeyOf ms))"
      using k(1,2) by (auto simp: image_iff)
    with k full ms show ?thesis
      unfolding storeInv_def new by simp
  next
    case notfull: False
    with assms False show ?thesis
      unfolding storeInv_def new by auto
  qed
qed

lemma storeInv_create: "storeInv (createSession w r)"
  by (simp add: storeInv_def createSession_def)

lemma storeInv_clear: "storeInv (clearSession s)"
  by (simp add: storeInv_def clearSession_def)

subsection \<open>Invariants of every reachable session\<close>

lemma getSessionByTabId_mem:
  "getSessionByTabId ss t = Some (w, s) \<Longrightarrow> (w, s) \<in> set ss"
  by (induction ss t rule: getSessionByTabId.induct) (auto split: if_splits)

lemma getSessionByTabId_tracks:
  "getSessionByTabId ss t = Some (w, s) \<Longrightarrow> t \<in> trackedTabIds s"
  by (induction ss t rule: getSessionByTabId.induct) (auto split: if_splits)

lemma getSessionByWindowId_mem:
  "getSessionByWindowId ss w = Some s \<Longrightarrow> (w, s) \<in> set ss"
  by (simp add: getSessionByWindowId_def map_of_SomeD)

lemma putSession_mem:
  "(w', s'') \<in> set (putSession w s' ss) \<Longrightarrow> s'' = s' \<or> (w', s'') \<in> set ss"
  by (auto simp: putSession_def split: if_splits)

lemma setSession_mem:
  "(w', s'') \<in> set (setSession w s' ss) \<Longrightarrow> s'' = s' \<or> (w', s'') \<in> set ss"
  by (auto simp: setSession_def dest: putSession_mem split: if_splits)

lemma deleteSession_mem:
  "(w', s'') \<in> set (deleteSession w ss) \<Longrightarrow> (w', s'') \<in> set ss"
  by (auto simp: deleteSession_def)

lemma importItems_invariant:
  assumes imp: "\<And>s x. P s \<Longrightarrow> P (fst (storeEntry s (importEntry now x)))"
  shows "P s \<Longrightarrow> P (fst (importItems now s items n))"
proof (induction items arbitrary: s n)
  case Nil
  then show ?case by simp
next
  case (Cons it items)
  show ?case
  proof (cases "itemXml it")
    case (JString x)
    then show ?thesis using Cons imp by (simp add: Let_def)
  qed (use Cons in simp_all)
qed

lemma headers_invariant:
  assumes hdr: "\<And>s n v. P s \<Longrightarrow> P (fst (storeEntry s (\<lambda>i. headerEntry env now i dt n v r)))"
  shows "P s \<Longrightarrow> P (foldl (headerStep env now dt r) s hs)"
proof (induction hs arbitrary: s)
  case Nil
  then show ?case by simp
next
  case (Cons h hs)
  have "P (headerStep env now dt r s h)"
    using Cons.prems hdr by (simp add: headerStep_def handleHeaderValue_def Let_def)
  then show ?case using Cons.IH by simp
qed

lemma step_invariant:
  assumes create: "\<And>w r c. P ((createSession w r)\<lparr>isCapturing := c\<rparr>)"
    and tabs: "\<And>s T. P s \<Longrightarrow> P (s\<lparr>trackedTabIds := T\<rparr>)"
    and poss: "\<And>s now dt. P s \<Longrightarrow> P (fst (storeEntry s (\<lambda>i. possibleSAMLEntry env now i dt)))"
    and hdr: "\<And>s now dt n v r. P s \<Longrightarrow>
                P (fst (storeEntry s (\<lambda>i. headerEntry env now i dt n v r)))"
    and imp: "\<And>s now x. P s \<Longrightarrow> P (fst (storeEntry s (importEntry now x)))"
    and att: "\<And>s dt. P s \<Longrightarrow> P (attachResponse s dt)"
    and clr: "\<And>s. P s \<Longrightarrow> P (clearSession s)"
    and inv: "\<forall>(w, s) \<in> set ss. P s"
  shows "\<forall>(w, s) \<in> set (step env ss ev). P s"
proof -
  obtain now e where fields: "ev = (now, e)" by (cases ev)
  have c0: "\<And>w r. P (createSession w r)"
  proof -
    fix w r
    have "(createSession w r)\<lparr>isCapturing := False\<rparr> = createSession w r"
      by (simp add: createSession_def)
    then show "P (createSession w r)" using create[where w=w and r=r and c=False] by simp
  qed
  show ?thesis
  proof (cases e)
    case (BeforeRequest dt)
    then show ?thesis using fields inv poss
      by (auto simp: handlePossibleSAML_def split: option.splits
          dest!: putSession_mem getSessionByTabId_mem)
  next
    case (BeforeSendHeaders dt)
    then show ?thesis using fields inv headers_invariant[of P env now dt True, OF hdr]
      by (auto simp: tryHandleHeaderSAML_def split: option.splits
          dest!: putSession_mem getSessionByTabId_mem)
  next
    case (HeadersReceived dt)
    then show ?thesis using fields inv headers_invariant[of P env now dt False, OF hdr]
      by (auto simp: tryHandleHeaderSAML_def split: option.splits
          dest!: putSession_mem getSessionByTabId_mem)
  next
    case (Completed dt)
    then show ?thesis using fields inv att
      by (auto simp: attachResponseData_def split: option.splits
          dest!: putSession_mem getSessionByTabId_mem)
  next
    case (TabCreated tb)
    then show ?thesis using fields inv tabs
      by (auto simp: onTabCreated_def split: option.splits if_splits
          dest!: putSession_mem getSessionByTabId_mem)
  next
    case (TabRemoved t)
    then show ?thesis using fields inv tabs
      by (auto simp: onTabRemoved_def split: option.splits
          dest!: putSession_mem getSessionByTabId_mem)
  next
    case (StartCaptureMsg w t)
    then show ?thesis using fields inv create
      by (auto simp: startCaptureMessage_def startCapture_def split: option.splits
          dest!: setSession_mem)
  next
    case (StopCaptureMsg w)
    then show ?thesis using fields inv
      by (auto simp: stopCapture_def dest!: deleteSession_mem)
  next
    case (ClearMessagesMsg w)
    then show ?thesis using fields inv clr
      by (auto simp: clearMessages_def split: option.splits
          dest!: putSession_mem getSessionByWindowId_mem)
  next
    case (ImportMessagesMsg w items)
    then show ?thesis using fields inv c0 importItems_invariant[of P now, OF imp]
      by (auto simp: importMessages_def Let_def split: option.splits
          dest!: putSession_mem getSessionByWindowId_mem setSession_mem)
  next
    case (WindowRemoved w)
    then show ?thesis using fields inv
      by (auto simp: stopCapture_def dest!: deleteSession_mem)
  qed
qed

lemma run_invariant:
  assumes create: "\<And>w r c. P ((createSession w r)\<lparr>isCapturing := c\<rparr>)"
    and tabs: "\<And>s T. P s \<Longrightarrow> P (s\<lparr>trackedTabIds := T\<rparr>)"
    and poss: "\<And>s now dt. P s \<Longrightarrow> P (fst (storeEntry s (\<lambda>i. possibleSAMLEntry env now i dt)))"
    and hdr: "\<And>s now dt n v r. P s \<Longrightarrow>
                P (fst (storeEntry s (\<lambda>i. headerEntry env now i dt n v r)))"
    and imp: "\<And>s now x. P s \<Longrightarrow> P (fst (storeEntry s (importEntry now x)))"
    and att: "\<And>s dt. P s \<Longrightarrow> P (attachResponse s dt)"
    and clr: "\<And>s. P s \<Longrightarrow> P (clearSession s)"
  shows "(w, s) \<in> set (run env evs) \<Longrightarrow> P s"
proof -
  have "\<forall>(w, s) \<in> set (foldl (step env) [] evs). P s"
  proof (induction evs rule: rev_induct)
    case Nil
    then show ?case by simp
  next
    case (snoc ev evs)
    then show ?case
      using step_invariant[of P env "foldl (step env) [] evs" ev,
          OF create tabs poss hdr imp att clr]
      by simp
  qed
  then show "(w, s) \<in> set (run env evs) \<Longrightarrow> P s"
    by (auto simp: run_def)
qed

lemma attachTo_keeps:
  "attachTo i sc rh ms = Some ms' \<Longrightarrow>
     length ms' = length ms \<and> map dedupKeyOf ms' = map dedupKeyOf ms \<and>
     map id_msg ms' = map id_msg ms \<and> map kind ms' = map kind ms \<and>
     map requestId ms' = map requestId ms \<and> map transport ms' = map transport ms \<and>
     map encoding ms' = map encoding ms"
  by (induction ms arbitrary: ms') (auto simp: dedupKeyOf_def split: if_splits)

lemma attachResponse_fields [simp]:
  "seenKeys (attachResponse s dt) = seenKeys s"
  "nextMessageId (attachResponse s dt) = nextMessageId s"
  "requestIdToMessageId (attachResponse s dt) = requestIdToMessageId s"
  "trackedTabIds (attachResponse s dt) = trackedTabIds s"
  "rootTabId (attachResponse s dt) = rootTabId s"
  by (simp_all add: attachResponse_def split: option.splits)

lemma attachResponse_keeps:
  "length (messages (attachResponse s dt)) = length (messages s)"
  "map dedupKeyOf (messages (attachResponse s dt)) = map dedupKeyOf (messages s)"
  "map id_msg (messages (attachResponse s dt)) = map id_msg (messages s)"
  "map kind (messages (attachResponse s dt)) = map kind (messages s)"
  "map requestId (messages (attachResponse s dt)) = map requestId (messages s)"
  "map transport (messages (attachResponse s dt)) = map transport (messages s)"
  "map encoding (messages (attachResponse s dt)) = map encoding (messages s)"
  by (auto simp: attachResponse_def dest: attachTo_keeps split: option.splits)

lemma storeInv_attachResponse: "storeInv s \<Longrightarrow> storeInv (attachResponse s dt)"
  by (simp add: storeInv_def attachResponse_keeps)

lemma storeInv_storeEntry: "storeInv s \<Longrightarrow> storeInv (fst (storeEntry s build))"
proof -
  assume a: "storeInv s"
  have "storeInv (s\<lparr>nextMessageId := nextMessageId s + 1\<rparr>)"
    using a by (simp add: storeInv_def)
  then show ?thesis
    using a by (simp add: storeEntry_def storeInv_addMessage split: option.splits)
qed

lemma reachable_storeInv: "(w, s) \<in> set (run env evs) \<Longrightarrow> storeInv s"
proof (rule run_invariant[where P = storeInv])
  show "\<And>w r c. storeInv ((createSession w r)\<lparr>isCapturing := c\<rparr>)"
    by (simp add: storeInv_def createSession_def)
  show "\<And>s T. storeInv s \<Longrightarrow> storeInv (s\<lparr>trackedTabIds := T\<rparr>)"
    by (simp add: storeInv_def)
qed (simp_all add: storeInv_storeEntry storeInv_attachResponse storeInv_clear)

lemma makeDedupKey_same_xml: "(makeDedupKey k x = makeDedupKey k' x) = (k = k')"
  by (simp add: makeDedupKey_def)

lemma bar_split:
  "CHR ''|'' \<notin> set k \<Longrightarrow> CHR ''|'' \<notin> set k' \<Longrightarrow> k @ CHR ''|'' # x = k' @ CHR ''|'' # x' \<Longrightarrow>
     k = k' \<and> x = x'"
proof (induction k arbitrary: k')
  case Nil
  then show ?case by (cases k') auto
next
  case (Cons a k)
  then show ?case by (cases k') auto
qed

lemma makeDedupKey_inj:
  "CHR ''|'' \<notin> set k \<Longrightarrow> CHR ''|'' \<notin> set k' \<Longrightarrow>
     (makeDedupKey k x = makeDedupKey k' x') = (k = k' \<and> x = x')"
  using bar_split[of k k' x x'] by (auto simp: makeDedupKey_def)

lemma knownKind_no_bar: "knownKind k \<Longrightarrow> CHR ''|'' \<notin> set k"
  by (auto simp: knownKind_def)

subsection \<open>What the handlers build\<close>

lemma extractFromQuery_cases:
  "extractFromQuery env u = Some f \<Longrightarrow>
     c_transport f = ''GET'' \<and> c_name f \<in> {''SAMLResponse'', ''SAMLRequest'', ''SAMLArtifact''}"
  by (auto simp: extractFromQuery_def split: option.splits)

lemma extractFromFormData_cases:
  "extractFromFormData dt = Some f \<Longrightarrow>
     c_transport f = ''POST'' \<and> c_name f \<in> {''SAMLResponse'', ''SAMLRequest'', ''SAMLArtifact''}"
  by (auto simp: extractFromFormData_def split: option.splits)

lemma firstBase64Item_cases:
  "firstBase64Item items = Some f \<Longrightarrow>
     c_transport f = ''JSON'' \<and> c_name f \<in> {''SAMLResponse'', ''SAMLRequest'', ''SAMLBase64''}"
  by (induction items rule: firstBase64Item.induct) (auto split: if_splits)

lemma extractFromBody_cases:
  "extractFromBody env dt = Some f \<Longrightarrow>
     (c_transport f = ''POST'' \<and> c_name f \<in> {''SAMLResponse'', ''SAMLRequest'', ''SAMLArtifact''}) \<or>
     (c_transport f = ''JSON'' \<and> c_name f \<in> {''SAMLResponse'', ''SAMLRequest'', ''SAMLBase64''}) \<or>
     (c_transport f = ''SOAP'' \<and> c_name f = ''SAML-XML'' \<and> looksLikeXML (c_value f))"
  unfolding extractFromBody_def
  by (auto split: option.splits if_splits
      dest!: extractFromFormData_cases firstBase64Item_cases)

lemma found_cases:
  assumes "(case extractFromQuery env (d_url dt) of Some f \<Rightarrow> Some f
            | None \<Rightarrow> extractFromBody env dt) = Some f"
  shows "(c_transport f \<in> {''GET'', ''POST''} \<and>
            c_name f \<in> {''SAMLResponse'', ''SAMLRequest'', ''SAMLArtifact''}) \<or>
         (c_transport f = ''JSON'' \<and> c_name f \<in> {''SAMLResponse'', ''SAMLRequest'', ''SAMLBase64''}) \<or>
         (c_transport f = ''SOAP'' \<and> c_name f = ''SAML-XML'' \<and> looksLikeXML (c_value f))"
  using assms extractFromQuery_cases[of env "d_url dt" f] extractFromBody_cases[of env dt f]
  by (auto split: option.splits)

lemma possibleSAMLEntry_props:
  assumes "possibleSAMLEntry env now i dt = Some e"
  shows "id_msg e = i" "knownKind (kind e)" "requestId e = Some (d_requestId dt)"
    "statusCode e = None" "responseHeaders e = None"
    "transport e \<in> {''GET'', ''POST'', ''JSON'', ''SOAP''}"
    "transport e \<in> {''GET'', ''POST''} \<and> kind e = ''SAMLRequest'' \<longrightarrow>
       encoding e = Some ''deflate-raw''"
proof -
  obtain f where f: "(case extractFromQuery env (d_url dt) of Some f \<Rightarrow> Some f
            | None \<Rightarrow> extractFromBody env dt) = Some f"
    using assms by (auto simp: possibleSAMLEntry_def split: option.splits)
  note fc = found_cases[OF f]
  note e = assms[unfolded possibleSAMLEntry_def f option.case]
  show "id_msg e = i"
    using e by (auto simp: Let_def split: if_splits option.splits)
  show "requestId e = Some (d_requestId dt)"
    using e by (auto simp: Let_def split: if_splits option.splits)
  show "statusCode e = None"
    using e by (auto simp: Let_def split: if_splits option.splits)
  show "responseHeaders e = None"
    using e by (auto simp: Let_def split: if_splits option.splits)
  show "knownKind (kind e)"
    using e fc by (auto simp: Let_def knownKind_def split: if_splits option.splits)
  show "transport e \<in> {''GET'', ''POST'', ''JSON'', ''SOAP''}"
    using e fc by (auto simp: Let_def split: if_splits option.splits)
  show "transport e \<in> {''GET'', ''POST''} \<and> kind e = ''SAMLRequest'' \<longrightarrow>
       encoding e = Some ''deflate-raw''"
    using e fc by (auto simp: Let_def split: if_splits option.splits)
qed

lemma headerEntry_props:
  assumes "headerEntry env now i dt n v r = Some e"
  shows "id_msg e = i" "knownKind (kind e)" "requestId e = None"
    "statusCode e = None" "responseHeaders e = None"
    "transport e \<in> {''HEADER(req)'', ''HEADER(res)''}"
  using assms
  by (auto simp: headerEntry_def Let_def knownKind_def split: if_splits option.splits)

lemma guessKindFromXML_known: "knownKind (guessKindFromXML x)"
  by (simp add: guessKindFromXML_def knownKind_def Let_def)

lemma importEntry_props:
  assumes "importEntry now x i = Some e"
  shows "id_msg e = i" "knownKind (kind e)" "requestId e = None"
    "statusCode e = None" "responseHeaders e = None" "transport e = ''IMPORT''"
  using assms guessKindFromXML_known[of x]
  by (auto simp: importEntry_def)

lemma addMessage_messages_subset:
  "set (messages (fst (addMessage s e))) \<subseteq> insert e (set (messages s))"
proof (cases "dedupKeyOf e \<in> seenKeys s")
  case True
  then show ?thesis by (auto simp: addMessage_dup)
next
  case False
  have "set (tl (messages s @ [e])) \<subseteq> set (messages s @ [e])"
    by (cases "messages s @ [e]") auto
  then show ?thesis
    unfolding addMessage_new_messages[OF False] by auto
qed

lemma storeEntry_messages_subset:
  "m \<in> set (messages (fst (storeEntry s build))) \<Longrightarrow>
     m \<in> set (messages s) \<or> build (nextMessageId s) = Some m"
  using addMessage_messages_subset[of "s\<lparr>nextMessageId := nextMessageId s + 1\<rparr>"]
  by (auto simp: storeEntry_def split: option.splits)

lemma kindsInv_storeEntry:
  assumes "kindsInv s" and "\<And>i e. build i = Some e \<Longrightarrow> knownKind (kind e)"
  shows "kindsInv (fst (storeEntry s build))"
  using assms storeEntry_messages_subset[of _ s build]
  by (auto simp: kindsInv_def list_all_iff)

lemma kindsInv_attachResponse: "kindsInv s \<Longrightarrow> kindsInv (attachResponse s dt)"
proof -
  have eq: "list_all (\<lambda>m. knownKind (kind m)) ms = list_all knownKind (map kind ms)" for ms
    by (simp add: list_all_iff)
  show "kindsInv s \<Longrightarrow> kindsInv (attachResponse s dt)"
    unfolding kindsInv_def eq by (simp only: attachResponse_keeps)
qed

lemma reachable_kindsInv: "(w, s) \<in> set (run env evs) \<Longrightarrow> kindsInv s"
proof (rule run_invariant[where P = kindsInv])
  show "\<And>w r c. kindsInv ((createSession w r)\<lparr>isCapturing := c\<rparr>)"
    by (simp add: kindsInv_def createSession_def)
  show "\<And>s T. kindsInv s \<Longrightarrow> kindsInv (s\<lparr>trackedTabIds := T\<rparr>)"
    by (simp add: kindsInv_def)
  show "\<And>s. kindsInv s \<Longrightarrow> kindsInv (clearSession s)"
    by (simp add: kindsInv_def clearSession_def)
qed (auto intro!: kindsInv_storeEntry kindsInv_attachResponse
      dest: possibleSAMLEntry_props(2) headerEntry_props(2) importEntry_props(2))

lemma MAX_MESSAGES_ge2: "2 \<le> MAX_MESSAGES"
  by (simp add: MAX_MESSAGES_def)

lemma addMessage_new_snoc:
  assumes "dedupKeyOf e \<notin> seenKeys s"
  shows "messages (fst (addMessage s e)) =
           (if length (messages s) \<ge> MAX_MESSAGES then tl (messages s) else messages s) @ [e]"
proof -
  have "length (messages s) \<ge> MAX_MESSAGES \<Longrightarrow> messages s \<noteq> []"
    using MAX_MESSAGES_ge2 by auto
  then show ?thesis
    unfolding addMessage_new_messages[OF assms] by auto
qed

lemma addMessage_seenKeys_subset:
  "seenKeys (fst (addMessage s e)) \<subseteq> insert (dedupKeyOf e) (seenKeys s)"
proof (cases "dedupKeyOf e \<in> seenKeys s")
  case True
  then show ?thesis by (auto simp: addMessage_dup)
next
  case False
  show ?thesis unfolding addMessage_new_seenKeys[OF False] by auto
qed

lemma same_pair_count:
  assumes "distinct (map dedupKeyOf ms)" and "m \<in> set ms"
  shows "length (filter (\<lambda>m'. kind m' = kind m \<and> xml m' = xml m) ms) = 1"
  using assms
proof (induction ms)
  case Nil
  then show ?case by simp
next
  case (Cons a ms)
  show ?case
  proof (cases "a = m")
    case True
    have "filter (\<lambda>m'. kind m' = kind m \<and> xml m' = xml m) ms = []"
    proof (rule ccontr)
      assume "filter (\<lambda>m'. kind m' = kind m \<and> xml m' = xml m) ms \<noteq> []"
      then obtain m' where "m' \<in> set ms" "kind m' = kind m" "xml m' = xml m"
        by (auto simp: filter_empty_conv)
      then have "dedupKeyOf m' = dedupKeyOf m" "m' \<in> set ms"
        by (simp_all add: dedupKeyOf_def)
      then have "dedupKeyOf m \<in> dedupKeyOf ` set ms"
        by (metis imageI)
      with Cons.prems True show False by simp
    qed
    with True show ?thesis by simp
  next
    case False
    then have m: "m \<in> set ms" using Cons.prems by simp
    have "\<not> (kind a = kind m \<and> xml a = xml m)"
    proof
      assume "kind a = kind m \<and> xml a = xml m"
      then have "dedupKeyOf a = dedupKeyOf m" by (simp add: dedupKeyOf_def)
      with m Cons.prems show False by (auto simp: image_iff)
    qed
    with Cons m show ?thesis by simp
  qed
qed

subsection \<open>Appending many messages\<close>

lemma dedupKeyOf_id [simp]: "dedupKeyOf (e\<lparr>id_msg := i\<rparr>) = dedupKeyOf e"
  by (simp add: dedupKeyOf_def)

lemma length_withIds [simp]: "length (withIds n es) = length es"
  by (induction es arbitrary: n) simp_all

lemma ids_withIds: "map id_msg (withIds n es) = [n..<n + length es]"
proof (induction es arbitrary: n)
  case Nil
  then show ?case by simp
next
  case (Cons e es)
  have "[n..<n + length (e # es)] = n # [Suc n..<Suc n + length es]"
    by (subst upt_rec) simp
  then show ?case using Cons by simp
qed

lemma kindAndXml_withIds: "map kindAndXml (withIds n es) = map kindAndXml es"
  by (induction es arbitrary: n) (simp_all add: kindAndXml_def)

lemma requestId_withIds: "map requestId (withIds n es) = map requestId es"
  by (induction es arbitrary: n) simp_all

lemma withIds_append: "withIds n (xs @ ys) = withIds n xs @ withIds (n + length xs) ys"
  by (induction xs arbitrary: n) simp_all

lemma appendAll_Nil [simp]: "appendAll s [] = s"
  by (simp add: appendAll_def)

lemma appendAll_Cons:
  "appendAll s (e # es) =
     appendAll (fst (addMessage (s\<lparr>nextMessageId := nextMessageId s + 1\<rparr>)
                       (e\<lparr>id_msg := nextMessageId s\<rparr>))) es"
  by (simp add: appendAll_def storeEntry_def)

lemma appendAll_snoc:
  "appendAll s (es @ [e]) =
     fst (addMessage ((appendAll s es)\<lparr>nextMessageId := nextMessageId (appendAll s es) + 1\<rparr>)
            (e\<lparr>id_msg := nextMessageId (appendAll s es)\<rparr>))"
  by (simp add: appendAll_def storeEntry_def)

lemma storeInv_next: "storeInv (s\<lparr>nextMessageId := n\<rparr>) = storeInv s"
  by (simp add: storeInv_def)

lemma appendAll_fresh:
  assumes "storeInv s" and "distinct (map dedupKeyOf es)"
    and "set (map dedupKeyOf es) \<inter> seenKeys s = {}"
  shows "messages (appendAll s es) =
           drop (length (messages s) + length es - MAX_MESSAGES)
             (messages s @ withIds (nextMessageId s) es) \<and>
         storeInv (appendAll s es) \<and>
         nextMessageId (appendAll s es) = nextMessageId s + length es"
  using assms
proof (induction es arbitrary: s)
  case Nil
  then show ?case by (simp add: storeInv_def)
next
  case (Cons e es)
  define s0 where "s0 = s\<lparr>nextMessageId := nextMessageId s + 1\<rparr>"
  define e0 where "e0 = e\<lparr>id_msg := nextMessageId s\<rparr>"
  define s' where "s' = fst (addMessage s0 e0)"
  have inv0: "storeInv s0" using Cons.prems(1) by (simp add: s0_def storeInv_next)
  have new: "dedupKeyOf e0 \<notin> seenKeys s0"
    using Cons.prems(3) by (auto simp: s0_def e0_def)
  have inv': "storeInv s'" unfolding s'_def using inv0 by (rule storeInv_addMessage)
  have "seenKeys s' \<subseteq> insert (dedupKeyOf e) (seenKeys s)"
    using addMessage_seenKeys_subset[of s0 e0] by (simp add: s'_def s0_def e0_def)
  moreover have "x \<noteq> dedupKeyOf e \<and> x \<notin> seenKeys s" if "x \<in> set (map dedupKeyOf es)" for x
  proof -
    have "dedupKeyOf e \<notin> set (map dedupKeyOf es)" using Cons.prems(2) by simp
    moreover have "set (map dedupKeyOf es) \<inter> seenKeys s = {}" using Cons.prems(3) by simp
    ultimately show ?thesis using that by blast
  qed
  ultimately have disj: "set (map dedupKeyOf es) \<inter> seenKeys s' = {}"
    by blast
  have dist: "distinct (map dedupKeyOf es)" using Cons.prems(2) by simp
  note IH = Cons.IH[OF inv' dist disj]
  have next': "nextMessageId s' = nextMessageId s + 1"
    by (simp add: s'_def s0_def)
  have len: "length (messages s) \<le> MAX_MESSAGES" using Cons.prems(1) by (simp add: storeInv_def)
  have ms': "messages s' =
      (if length (messages s) \<ge> MAX_MESSAGES then tl (messages s) else messages s) @ [e0]"
    using addMessage_new_snoc[OF new] by (simp add: s'_def s0_def)
  have step: "appendAll s (e # es) = appendAll s' es"
    by (simp add: appendAll_Cons s'_def s0_def e0_def)
  have msgs: "messages (appendAll s' es) =
      drop (length (messages s) + length (e # es) - MAX_MESSAGES)
        (messages s @ withIds (nextMessageId s) (e # es))"
  proof (cases "length (messages s) \<ge> MAX_MESSAGES")
    case True
    then have eq: "length (messages s) = MAX_MESSAGES" using len by simp
    then obtain m ms where mm: "messages s = m # ms"
      using MAX_MESSAGES_ge2 by (cases "messages s") auto
    have ms1: "messages s' = ms @ [e0]" using ms' True mm by simp
    have i1: "length (messages s') + length es - MAX_MESSAGES = length es"
      using eq mm by (simp add: ms1)
    have i2: "length (m # ms) + length (e # es) - MAX_MESSAGES = Suc (length es)"
      using eq mm by simp
    have "messages (appendAll s' es) =
        drop (length es) (messages s' @ withIds (nextMessageId s') es)"
      using IH by (simp only: i1)
    also have "\<dots> = drop (length es) (ms @ e0 # withIds (Suc (nextMessageId s)) es)"
      by (simp add: ms1 next')
    also have "\<dots> = drop (Suc (length es)) ((m # ms) @ withIds (nextMessageId s) (e # es))"
      by (simp add: e0_def)
    finally show ?thesis unfolding mm i2 .
  next
    case False
    then have ms1: "messages s' = messages s @ [e0]" using ms' by simp
    have i1: "length (messages s') + length es = length (messages s) + length (e # es)"
      by (simp add: ms1)
    have "messages (appendAll s' es) =
        drop (length (messages s') + length es - MAX_MESSAGES)
          (messages s' @ withIds (nextMessageId s') es)"
      using IH by simp
    also have "messages s' @ withIds (nextMessageId s') es =
        messages s @ withIds (nextMessageId s) (e # es)"
      by (simp add: ms1 next' e0_def)
    finally show ?thesis by (simp only: i1)
  qed
  show ?case
    using IH msgs by (simp add: step next')
qed

lemma evict_step:
  assumes full: "length (messages s) \<ge> MAX_MESSAGES" and new: "dedupKeyOf e \<notin> seenKeys s"
  shows "messages (fst (addMessage s e)) = tl (messages s) @ [e]"
    and "dedupKeyOf (hd (messages s)) \<notin> seenKeys (fst (addMessage s e))"
    and "requestId (hd (messages s)) = Some r \<Longrightarrow> r \<noteq> [] \<Longrightarrow>
           requestIdToMessageId (fst (addMessage s e)) r = None"
proof -
  obtain m ms where mm: "messages s = m # ms"
    using full MAX_MESSAGES_ge2 by (cases "messages s") auto
  show "messages (fst (addMessage s e)) = tl (messages s) @ [e]"
    using addMessage_new_snoc[OF new] full by simp
  show "dedupKeyOf (hd (messages s)) \<notin> seenKeys (fst (addMessage s e))"
    using addMessage_new_seenKeys[OF new] full mm by simp
  show "requestIdToMessageId (fst (addMessage s e)) r = None"
    if "requestId (hd (messages s)) = Some r" "r \<noteq> []"
    using that new full mm
    by (simp add: addMessage_def dedupKeyOf_def enforceLimit_def registerRequestId_def
        unregisterRequestId_def Let_def split: option.splits)
qed

lemma distinct_keys:
  assumes "list_all (\<lambda>m. knownKind (kind m)) es" and "distinct (map kindAndXml es)"
  shows "distinct (map dedupKeyOf es)"
proof -
  have "inj_on dedupKeyOf (set es)"
  proof (rule inj_onI)
    fix a b assume ab: "a \<in> set es" "b \<in> set es" "dedupKeyOf a = dedupKeyOf b"
    then have "knownKind (kind a)" "knownKind (kind b)"
      using assms(1) by (auto simp: list_all_iff)
    then have "kind a = kind b \<and> xml a = xml b"
      using ab(3) makeDedupKey_inj[of "kind a" "kind b" "xml a" "xml b"]
      by (simp add: dedupKeyOf_def knownKind_no_bar)
    then have "kindAndXml a = kindAndXml b" by (simp add: kindAndXml_def)
    then show "a = b"
      using assms(2) ab(1,2) by (meson distinct_map inj_onD)
  qed
  moreover have "distinct es" using assms(2) by (simp add: distinct_map)
  ultimately show ?thesis by (simp add: distinct_map)
qed

lemma createSession_fields [simp]:
  "messages (createSession w r) = []" "seenKeys (createSession w r) = {}"
  "nextMessageId (createSession w r) = 1" "trackedTabIds (createSession w r) = {r}"
  "rootTabId (createSession w r) = r" "requestIdToMessageId (createSession w r) = Map.empty"
  by (simp_all add: createSession_def)

lemma same_pair_same_key: "kindAndXml a = kindAndXml b \<Longrightarrow> dedupKeyOf a = dedupKeyOf b"
  by (simp add: kindAndXml_def dedupKeyOf_def)

lemma keys_withIds: "map dedupKeyOf (withIds n es) = map dedupKeyOf es"
  by (induction es arbitrary: n) simp_all

lemma appendAll_overflow:
  assumes len: "length es = MAX_MESSAGES + 1"
    and dist: "distinct (map dedupKeyOf es)"
  shows "messages (appendAll (createSession w0 r0) es) = withIds 2 (tl es)"
    and "seenKeys (appendAll (createSession w0 r0) es) = set (map dedupKeyOf (tl es))"
    and "requestId (hd es) = Some r \<Longrightarrow> r \<noteq> [] \<Longrightarrow>
           requestIdToMessageId (appendAll (createSession w0 r0) es) r = None"
proof -
  let ?s0 = "createSession w0 r0"
  have inv0: "storeInv ?s0" by (rule storeInv_create)
  have disj: "set (map dedupKeyOf xs) \<inter> seenKeys ?s0 = {}" for xs by simp
  obtain e0 rest where es: "es = e0 # rest" using len by (cases es) auto
  note all = appendAll_fresh[OF inv0 dist disj]
  have two: "Suc (Suc 0) = 2" by simp
  show m: "messages (appendAll ?s0 es) = withIds 2 (tl es)"
    using all len by (simp add: es two)
  have "storeInv (appendAll ?s0 es)" using all by simp
  then show "seenKeys (appendAll ?s0 es) = set (map dedupKeyOf (tl es))"
    unfolding storeInv_def m by (simp add: keys_withIds)
  show "requestIdToMessageId (appendAll ?s0 es) r = None"
    if rid: "requestId (hd es) = Some r" "r \<noteq> []"
  proof -
    obtain front el where fr: "es = front @ [el]"
      using es by (metis append_butlast_last_id list.distinct(1))
    have lf: "length front = MAX_MESSAGES" using len fr by simp
    then have fne: "front \<noteq> []" using MAX_MESSAGES_ge2 by auto
    have dfront: "distinct (map dedupKeyOf front)" and nel: "dedupKeyOf el \<notin> set (map dedupKeyOf front)"
      using dist fr by auto
    note fa = appendAll_fresh[OF inv0 dfront disj]
    define s1 where "s1 = appendAll ?s0 front"
    have m1: "messages s1 = withIds 1 front" using fa lf by (simp add: s1_def)
    have inv1: "storeInv s1" using fa by (simp add: s1_def)
    have seen1: "seenKeys s1 = set (map dedupKeyOf front)"
      using inv1 unfolding storeInv_def m1 by (simp add: keys_withIds)
    define s2 where "s2 = s1\<lparr>nextMessageId := nextMessageId s1 + 1\<rparr>"
    define e2 where "e2 = el\<lparr>id_msg := nextMessageId s1\<rparr>"
    have res: "appendAll ?s0 es = fst (addMessage s2 e2)"
      by (simp add: fr appendAll_snoc s1_def s2_def e2_def)
    have full: "length (messages s2) \<ge> MAX_MESSAGES" by (simp add: s2_def m1 lf)
    have new: "dedupKeyOf e2 \<notin> seenKeys s2" using nel by (simp add: s2_def e2_def seen1)
    have "hd (messages s2) = (hd es)\<lparr>id_msg := 1\<rparr>"
      using fne by (cases front) (simp_all add: s2_def m1 fr)
    then have "requestId (hd (messages s2)) = Some r" using rid by simp
    then show ?thesis
      using evict_step(3)[OF full new _ rid(2)] by (simp add: res)
  qed
qed

lemma numberedMessage_fields [simp]:
  "kind (numberedMessage n) = ''SAML''" "xml (numberedMessage n) = ''<n'' @ replicate n CHR ''i'' @ ''/>''"
  "requestId (numberedMessage n) = Some ''r''"
  by (simp_all add: numberedMessage_def sampleMessage_def)

lemma numbered_distinct: "distinct (map kindAndXml (map numberedMessage [a..<b]))"
  by (simp add: distinct_map inj_on_def kindAndXml_def)

lemma numbered_known: "list_all (\<lambda>m. knownKind (kind m)) (map numberedMessage [a..<b])"
  by (simp add: list_all_iff knownKind_def)

lemma manyMessages_ends:
  "hd manyMessages = numberedMessage 0" "last manyMessages = numberedMessage MAX_MESSAGES"
  "butlast manyMessages = map numberedMessage [0..<MAX_MESSAGES]"
proof -
  have "[0..<MAX_MESSAGES + 1] = 0 # [1..<MAX_MESSAGES + 1]"
    by (subst upt_rec) simp
  then show "hd manyMessages = numberedMessage 0"
    by (simp only: manyMessages_def list.map list.sel)
  show "last manyMessages = numberedMessage MAX_MESSAGES"
    "butlast manyMessages = map numberedMessage [0..<MAX_MESSAGES]"
    by (simp_all add: manyMessages_def)
qed

lemma fullSession_full:
  "length (messages fullSession) \<ge> MAX_MESSAGES \<and>
   dedupKeyOf (last manyMessages) \<notin> seenKeys fullSession"
proof -
  have dk: "distinct (map dedupKeyOf (map numberedMessage [0..<MAX_MESSAGES]))"
    using numbered_known numbered_distinct by (rule distinct_keys)
  have disj: "set (map dedupKeyOf (map numberedMessage [0..<MAX_MESSAGES])) \<inter>
      seenKeys (createSession 1 5) = {}" by simp
  note fa = appendAll_fresh[OF storeInv_create dk disj]
  have m: "messages fullSession = withIds 1 (map numberedMessage [0..<MAX_MESSAGES])"
    using fa by (simp add: fullSession_def manyMessages_ends)
  have "storeInv fullSession" using fa by (simp add: fullSession_def manyMessages_ends)
  then have "seenKeys fullSession = set (map dedupKeyOf (map numberedMessage [0..<MAX_MESSAGES]))"
    unfolding storeInv_def m by (simp add: keys_withIds)
  moreover have "dedupKeyOf (numberedMessage MAX_MESSAGES)
      \<notin> set (map dedupKeyOf (map numberedMessage [0..<MAX_MESSAGES]))"
    by (auto simp: dedupKeyOf_def makeDedupKey_def)
  ultimately show ?thesis by (simp add: m manyMessages_ends)
qed

subsection \<open>The registry and response attachment\<close>

lemma map_fst_putSession [simp]: "map fst (putSession w s ss) = map fst ss"
  by (induction ss) (auto simp: putSession_def)

lemma distinct_setSession: "distinct (map fst ss) \<Longrightarrow> distinct (map fst (setSession w s ss))"
  by (auto simp: setSession_def)

lemma distinct_deleteSession: "distinct (map fst ss) \<Longrightarrow> distinct (map fst (deleteSession w ss))"
  by (simp add: deleteSession_def distinct_map_filter)

lemma step_distinct: "distinct (map fst ss) \<Longrightarrow> distinct (map fst (step env ss ev))"
proof -
  assume d: "distinct (map fst ss)"
  obtain now e where ev: "ev = (now, e)" by (cases ev)
  show ?thesis
    using d unfolding ev
    by (cases e)
      (auto simp: handlePossibleSAML_def tryHandleHeaderSAML_def attachResponseData_def
        onTabCreated_def onTabRemoved_def startCaptureMessage_def startCapture_def
        stopCapture_def clearMessages_def importMessages_def Let_def
        distinct_setSession distinct_deleteSession
        split: option.splits)
qed

lemma reachable_distinct: "distinct (map fst (run env evs))"
  unfolding run_def
  by (induction evs rule: rev_induct) (simp_all add: step_distinct)

lemma putSession_same:
  "distinct (map fst ss) \<Longrightarrow> (w, s) \<in> set ss \<Longrightarrow> putSession w s ss = ss"
proof (induction ss)
  case Nil
  then show ?case by (simp add: putSession_def)
next
  case (Cons a ss)
  obtain k v where a: "a = (k, v)" by (cases a)
  show ?case
  proof (cases "k = w")
    case True
    then have "v = s" using Cons.prems a by (auto simp: image_iff)
    moreover have "putSession w s ss = ss"
    proof -
      have "\<forall>(k', v') \<in> set ss. k' \<noteq> w" using Cons.prems(1) a True by (auto simp: image_iff)
      then show ?thesis by (induction ss) (auto simp: putSession_def)
    qed
    ultimately show ?thesis using a True by (simp add: putSession_def)
  next
    case False
    then show ?thesis using Cons a by (auto simp: putSession_def)
  qed
qed

lemma attachTo_None: "i \<notin> set (map id_msg ms) \<Longrightarrow> attachTo i sc rh ms = None"
  by (induction ms) auto

lemma attachResponse_unknown: "unknownRequest s dt \<Longrightarrow> attachResponse s dt = s"
  by (auto simp: unknownRequest_def attachResponse_def attachTo_None split: option.splits)

subsection \<open>Tab tracking\<close>

lemma putSession_Cons:
  "putSession w' s' ((k, v) # ss) = (if k = w' then (k, s') else (k, v)) # putSession w' s' ss"
  by (simp add: putSession_def)

lemma map_of_putSession_other: "w \<noteq> w' \<Longrightarrow> map_of (putSession w' s' ss) w = map_of ss w"
proof (induction ss)
  case Nil
  then show ?case by (simp add: putSession_def)
next
  case (Cons a ss)
  obtain k v where a: "a = (k, v)" by (cases a)
  show ?case using Cons unfolding a putSession_Cons by simp
qed

lemma map_of_putSession_same:
  "map_of ss w = Some s \<Longrightarrow> map_of (putSession w s' ss) w = Some s'"
proof (induction ss)
  case Nil
  then show ?case by simp
next
  case (Cons a ss)
  obtain k v where a: "a = (k, v)" by (cases a)
  show ?case
  proof (cases "k = w")
    case True
    then show ?thesis unfolding a putSession_Cons by simp
  next
    case False
    then have "map_of ss w = Some s" using Cons.prems a by simp
    then have "map_of (putSession w s' ss) w = Some s'" by (rule Cons.IH)
    then show ?thesis using False unfolding a putSession_Cons by simp
  qed
qed

lemma map_of_putSession:
  "map_of ss w' = Some s0 \<Longrightarrow>
     map_of (putSession w' s' ss) w = (if w = w' then Some s' else map_of ss w)"
  by (simp add: map_of_putSession_other map_of_putSession_same)

lemma getSessionByTabId_map_of:
  "distinct (map fst ss) \<Longrightarrow> getSessionByTabId ss t = Some (w, s) \<Longrightarrow> map_of ss w = Some s"
  by (simp add: getSessionByTabId_mem)

lemma tab_step_keeps_root:
  assumes d: "distinct (map fst ss)" and w: "map_of ss w = Some s"
    and root: "rootTabId s \<in> trackedTabIds s"
    and ev: "isTabEvent e" "e \<noteq> TabRemoved (rootTabId s)"
  shows "\<exists>s'. map_of (step env ss (now, e)) w = Some s' \<and> rootTabId s' = rootTabId s \<and>
           rootTabId s \<in> trackedTabIds s'"
proof (cases e)
  case (TabCreated tb)
  show ?thesis
  proof (cases "getSessionByTabId ss (case openerTabId tb of None \<Rightarrow> 0 | Some opener \<Rightarrow> opener)")
    case None
    then show ?thesis using TabCreated w root
      by (auto simp: onTabCreated_def split: option.splits)
  next
    case (Some p)
    obtain w' s0 where p: "p = (w', s0)" by (cases p)
    have m: "map_of ss w' = Some s0"
      using getSessionByTabId_map_of[OF d] Some p by simp
    show ?thesis
      using TabCreated w root Some p m
      by (auto simp: onTabCreated_def map_of_putSession split: option.splits)
  qed
next
  case (TabRemoved t)
  then have ne: "t \<noteq> rootTabId s" using ev(2) by simp
  show ?thesis
  proof (cases "getSessionByTabId ss t")
    case None
    then show ?thesis using TabRemoved w root by (auto simp: onTabRemoved_def)
  next
    case (Some p)
    obtain w' s0 where p: "p = (w', s0)" by (cases p)
    have m: "map_of ss w' = Some s0"
      using getSessionByTabId_map_of[OF d] Some p by simp
    show ?thesis
      using TabRemoved w root Some p m ne
      by (auto simp: onTabRemoved_def map_of_putSession)
  qed
qed (use ev in simp_all)

lemma tab_steps_keep_root:
  assumes "distinct (map fst ss)" and "map_of ss w = Some s"
    and "rootTabId s \<in> trackedTabIds s"
    and "\<forall>ev \<in> set evs. isTabEvent (snd ev) \<and> snd ev \<noteq> TabRemoved (rootTabId s)"
  shows "\<exists>s'. map_of (foldl (step env) ss evs) w = Some s' \<and> rootTabId s' = rootTabId s \<and>
           rootTabId s \<in> trackedTabIds s'"
  using assms
proof (induction evs arbitrary: ss s)
  case Nil
  then show ?case by simp
next
  case (Cons ev evs)
  obtain now e where ev: "ev = (now, e)" by (cases ev)
  have e: "isTabEvent e" "e \<noteq> TabRemoved (rootTabId s)" using Cons.prems(4) ev by auto
  obtain s1 where s1: "map_of (step env ss (now, e)) w = Some s1" "rootTabId s1 = rootTabId s"
      "rootTabId s \<in> trackedTabIds s1"
    using tab_step_keeps_root[OF Cons.prems(1,2,3) e] by blast
  have d1: "distinct (map fst (step env ss (now, e)))"
    using Cons.prems(1) by (rule step_distinct)
  have "\<exists>s'. map_of (foldl (step env) (step env ss (now, e)) evs) w = Some s' \<and>
      rootTabId s' = rootTabId s1 \<and> rootTabId s1 \<in> trackedTabIds s'"
    using Cons.IH[OF d1 s1(1)] s1(2,3) Cons.prems(4) by simp
  then show ?case using s1(2) by (simp add: ev)
qed

lemma run_append: "run env (pre @ evs) = foldl (step env) (run env pre) evs"
  by (simp add: run_def)

subsection \<open>Decoding concrete payloads\<close>

lemma sample_decode:
  "b64ToBytes ''PGEvPg=='' = Some [60, 97, 47, 62]"
  "decodeSAML plainHost ''PGEvPg=='' False = Some ''<a/>''"
  "decodeSAML plainHost ''PGEvPg'' False = Some ''<a/>''"
  "decodeSAML plainHost ''PGEvPg=='' True = Some ''<a/>''"
  "decodeSAML failingInflateHost ''PGEvPg=='' True = Some ''<a/>''"
  "decodeSAML plainHost ''<a/>'' False = None"
  "b64ToBytes ''<a/>'' = None"
  by code_simp+

subsection \<open>Recorded encodings\<close>

lemma attachTo_list_all:
  assumes q: "\<And>m sc rh. Q (m\<lparr>statusCode := sc, responseHeaders := rh\<rparr>) = Q m"
  shows "attachTo i sc rh ms = Some ms' \<Longrightarrow> list_all Q ms \<Longrightarrow> list_all Q ms'"
  by (induction ms arbitrary: ms') (auto simp: q split: if_splits)

lemma attachResponse_list_all:
  assumes q: "\<And>m sc rh. Q (m\<lparr>statusCode := sc, responseHeaders := rh\<rparr>) = Q m"
  shows "list_all Q (messages s) \<Longrightarrow> list_all Q (messages (attachResponse s dt))"
  using attachTo_list_all[of Q, OF q]
  by (auto simp: attachResponse_def split: option.splits)

lemma storeEntry_list_all:
  assumes "list_all Q (messages s)" and "\<And>i e. build i = Some e \<Longrightarrow> Q e"
  shows "list_all Q (messages (fst (storeEntry s build)))"
  using assms storeEntry_messages_subset[of _ s build]
  by (auto simp: list_all_iff)

lemma reachable_deflateInv: "(w, s) \<in> set (run env evs) \<Longrightarrow> deflateInv s"
proof (rule run_invariant[where P = deflateInv])
  show "\<And>w r c. deflateInv ((createSession w r)\<lparr>isCapturing := c\<rparr>)"
    by (simp add: deflateInv_def createSession_def)
  show "\<And>s T. deflateInv s \<Longrightarrow> deflateInv (s\<lparr>trackedTabIds := T\<rparr>)"
    by (simp add: deflateInv_def)
  show "\<And>s. deflateInv s \<Longrightarrow> deflateInv (clearSession s)"
    by (simp add: deflateInv_def clearSession_def)
  show "\<And>s dt. deflateInv s \<Longrightarrow> deflateInv (attachResponse s dt)"
    unfolding deflateInv_def by (rule attachResponse_list_all) (simp add: deflateRecorded_def)
  show "\<And>s now dt. deflateInv s \<Longrightarrow>
      deflateInv (fst (storeEntry s (\<lambda>i. possibleSAMLEntry env now i dt)))"
    unfolding deflateInv_def
    by (rule storeEntry_list_all) (auto simp: deflateRecorded_def dest: possibleSAMLEntry_props(7))
  show "\<And>s now dt n v r. deflateInv s \<Longrightarrow>
      deflateInv (fst (storeEntry s (\<lambda>i. headerEntry env now i dt n v r)))"
    unfolding deflateInv_def
    by (rule storeEntry_list_all) (auto simp: deflateRecorded_def dest: headerEntry_props(6))
  show "\<And>s now x. deflateInv s \<Longrightarrow> deflateInv (fst (storeEntry s (importEntry now x)))"
    unfolding deflateInv_def
    by (rule storeEntry_list_all) (auto simp: deflateRecorded_def dest: importEntry_props(6))
qed

lemma default_path_entry:
  assumes f: "(case extractFromQuery env (d_url dt) of Some f \<Rightarrow> Some f
               | None \<Rightarrow> extractFromBody env dt) = Some f"
    and name: "c_name f = ''SAMLRequest''" and tr: "c_transport f \<in> {''GET'', ''POST''}"
    and e: "possibleSAMLEntry env now i dt = Some e"
  shows "kind e = ''SAMLRequest''" "transport e = c_transport f"
    "encoding e = Some ''deflate-raw''" "base64 e = Some (c_value f)"
    "\<exists>x. decodeSAML env (c_value f) True = Some x \<and> xml e = trim x"
  using e[unfolded possibleSAMLEntry_def f option.case] name tr
  by (auto simp: Let_def split: option.splits if_splits)

lemma decode_without_inflate:
  assumes "inflateRaw env = None \<or>
     (\<exists>inflate bs. inflateRaw env = Some inflate \<and> b64ToBytes v = Some bs \<and> inflate bs = None)"
    and "decodeSAML env v True = Some x"
  shows "\<exists>bs. b64ToBytes v = Some bs \<and> x = utf8Decode env bs"
  using assms
  by (auto simp: decodeSAML_def bytesToUtf8_def maybeInflateDeflateRaw_def Let_def
      split: option.splits if_splits)

subsection \<open>Correlation of responses\<close>

lemma addMessage_index:
  "requestIdToMessageId (fst (addMessage s e)) r = Some i \<Longrightarrow>
     requestIdToMessageId s r = Some i \<or> (i = id_msg e \<and> requestId e = Some r \<and> r \<noteq> [])"
  by (auto simp: addMessage_def Let_def enforceLimit_def registerRequestId_def
      unregisterRequestId_def split: if_splits option.splits list.splits)

lemma attachTo_mem:
  "attachTo i sc rh ms = Some ms' \<Longrightarrow> m' \<in> set ms' \<Longrightarrow>
     m' \<in> set ms \<or>
     (\<exists>m \<in> set ms. id_msg m = i \<and> m' = m\<lparr>statusCode := sc, responseHeaders := Some rh\<rparr>)"
  by (induction ms arbitrary: ms') (auto split: if_splits)

lemma attachTo_other:
  "attachTo i sc rh ms = Some ms' \<Longrightarrow> m \<in> set ms \<Longrightarrow> id_msg m \<noteq> i \<Longrightarrow> m \<in> set ms'"
  by (induction ms arbitrary: ms') (auto split: if_splits)

lemma correlationInv_storeEntry:
  assumes inv: "correlationInv s"
    and b: "\<And>e. build (nextMessageId s) = Some e \<Longrightarrow>
         id_msg e = nextMessageId s \<and> statusCode e = None \<and> responseHeaders e = None \<and>
         ((uncorrelatedTransport (transport e) \<longrightarrow> requestId e = None) \<and>
          (\<not> uncorrelatedTransport (transport e) \<longrightarrow>
             transport e \<in> {''GET'', ''POST'', ''JSON'', ''SOAP''} \<and> requestId e \<noteq> None))"
  shows "correlationInv (fst (storeEntry s build))"
proof (cases "build (nextMessageId s)")
  case None
  then show ?thesis using inv by (simp add: storeEntry_def)
next
  case (Some e)
  note be = b[OF Some]
  define s0 where "s0 = s\<lparr>nextMessageId := nextMessageId s + 1\<rparr>"
  define s' where "s' = fst (addMessage s0 e)"
  have res: "fst (storeEntry s build) = s'"
    by (simp add: storeEntry_def Some s'_def s0_def)
  have next': "nextMessageId s' = nextMessageId s + 1" by (simp add: s'_def s0_def)
  have mem: "m \<in> set (messages s') \<Longrightarrow> m \<in> set (messages s) \<or> m = e" for m
    using addMessage_messages_subset[of s0 e] by (auto simp: s'_def s0_def)
  have idx: "requestIdToMessageId s' r = Some i \<Longrightarrow>
      requestIdToMessageId s r = Some i \<or> (i = id_msg e \<and> requestId e = Some r \<and> r \<noteq> [])" for r i
    using addMessage_index[of s0 e r i] by (simp add: s'_def s0_def)
  have old_lt: "m \<in> set (messages s) \<Longrightarrow> id_msg m < nextMessageId s" for m
    using inv by (simp add: correlationInv_def)
  have c1: "\<forall>m \<in> set (messages s'). id_msg m < nextMessageId s'"
  proof
    fix m assume "m \<in> set (messages s')"
    then show "id_msg m < nextMessageId s'"
      using mem[of m] old_lt[of m] be by (auto simp: next')
  qed
  have c2: "\<forall>r i. requestIdToMessageId s' r = Some i \<longrightarrow>
         i < nextMessageId s' \<and>
         (\<forall>m \<in> set (messages s'). id_msg m = i \<longrightarrow> truthyStr (requestId m))"
  proof (intro allI impI)
    fix r i assume ri: "requestIdToMessageId s' r = Some i"
    show "i < nextMessageId s' \<and>
         (\<forall>m \<in> set (messages s'). id_msg m = i \<longrightarrow> truthyStr (requestId m))"
    proof (cases "requestIdToMessageId s r = Some i")
      case True
      then have lt: "i < nextMessageId s"
        and tr: "\<forall>m \<in> set (messages s). id_msg m = i \<longrightarrow> truthyStr (requestId m)"
        using inv by (auto simp: correlationInv_def)
      have "truthyStr (requestId m)" if "m \<in> set (messages s')" "id_msg m = i" for m
        using that mem[of m] tr lt be by auto
      then show ?thesis using lt by (simp add: next')
    next
      case False
      then have new: "i = id_msg e" "requestId e = Some r" "r \<noteq> []" using idx[OF ri] by auto
      have "truthyStr (requestId m)" if "m \<in> set (messages s')" "id_msg m = i" for m
        using that mem[of m] old_lt[of m] new be by auto
      then show ?thesis using new be by (simp add: next')
    qed
  qed
  have c3: "\<forall>m \<in> set (messages s').
         (uncorrelatedTransport (transport m) \<longrightarrow> requestId m = None) \<and>
          (\<not> uncorrelatedTransport (transport m) \<longrightarrow>
             transport m \<in> {''GET'', ''POST'', ''JSON'', ''SOAP''} \<and> requestId m \<noteq> None)"
  proof
    fix m assume m: "m \<in> set (messages s')"
    have "m \<in> set (messages s) \<Longrightarrow>
        ((uncorrelatedTransport (transport m) \<longrightarrow> requestId m = None) \<and>
          (\<not> uncorrelatedTransport (transport m) \<longrightarrow>
             transport m \<in> {''GET'', ''POST'', ''JSON'', ''SOAP''} \<and> requestId m \<noteq> None))"
      using inv unfolding correlationInv_def by blast
    then show "(uncorrelatedTransport (transport m) \<longrightarrow> requestId m = None) \<and>
          (\<not> uncorrelatedTransport (transport m) \<longrightarrow>
             transport m \<in> {''GET'', ''POST'', ''JSON'', ''SOAP''} \<and> requestId m \<noteq> None)"
      using mem[OF m] be by auto
  qed
  have c4: "\<forall>m \<in> set (messages s').
         \<not> truthyStr (requestId m) \<longrightarrow> statusCode m = None \<and> responseHeaders m = None"
  proof
    fix m assume m: "m \<in> set (messages s')"
    have "m \<in> set (messages s) \<Longrightarrow>
        \<not> truthyStr (requestId m) \<longrightarrow> statusCode m = None \<and> responseHeaders m = None"
      using inv unfolding correlationInv_def by blast
    then show "\<not> truthyStr (requestId m) \<longrightarrow> statusCode m = None \<and> responseHeaders m = None"
      using mem[OF m] be by auto
  qed
  show ?thesis unfolding res correlationInv_def using c1 c2 c3 c4 by blast
qed

lemma correlationInv_attachResponse:
  assumes inv: "correlationInv s"
  shows "correlationInv (attachResponse s dt)"
proof (cases "requestIdToMessageId s (d_requestId dt)")
  case None
  then show ?thesis using inv by (simp add: attachResponse_def)
next
  case (Some i)
  let ?rh = "filterHeaders [''content-type'', ''location'', ''set-cookie''] (d_responseHeaders dt)"
  show ?thesis
  proof (cases "i = 0 \<or> attachTo i (d_statusCode dt) ?rh (messages s) = None")
    case True
    then show ?thesis using inv Some by (auto simp: attachResponse_def)
  next
    case False
    then obtain ms' where ms': "attachTo i (d_statusCode dt) ?rh (messages s) = Some ms'"
      by auto
    have res: "attachResponse s dt = s\<lparr>messages := ms'\<rparr>"
      using Some False ms' by (simp add: attachResponse_def)
    have tr: "\<forall>m \<in> set (messages s). id_msg m = i \<longrightarrow> truthyStr (requestId m)"
      using inv Some unfolding correlationInv_def by blast
    have shape: "m' \<in> set ms' \<Longrightarrow> m' \<in> set (messages s) \<or>
        (\<exists>m \<in> set (messages s). truthyStr (requestId m) \<and>
           m' = m\<lparr>statusCode := d_statusCode dt, responseHeaders := Some ?rh\<rparr>)" for m'
      using attachTo_mem[OF ms', of m'] tr by blast
    have i1: "\<forall>m \<in> set (messages s). id_msg m < nextMessageId s"
      and i2: "\<forall>r i. requestIdToMessageId s r = Some i \<longrightarrow>
         i < nextMessageId s \<and>
         (\<forall>m \<in> set (messages s). id_msg m = i \<longrightarrow> truthyStr (requestId m))"
      and i3: "\<forall>m \<in> set (messages s).
         (uncorrelatedTransport (transport m) \<longrightarrow> requestId m = None) \<and>
          (\<not> uncorrelatedTransport (transport m) \<longrightarrow>
             transport m \<in> {''GET'', ''POST'', ''JSON'', ''SOAP''} \<and> requestId m \<noteq> None)"
      and i4: "\<forall>m \<in> set (messages s).
         \<not> truthyStr (requestId m) \<longrightarrow> statusCode m = None \<and> responseHeaders m = None"
      using inv unfolding correlationInv_def by blast+
    have c1: "\<forall>m \<in> set ms'. id_msg m < nextMessageId s"
      using shape i1 by fastforce
    have c2: "\<forall>r i. requestIdToMessageId s r = Some i \<longrightarrow>
         i < nextMessageId s \<and> (\<forall>m \<in> set ms'. id_msg m = i \<longrightarrow> truthyStr (requestId m))"
    proof (intro allI impI conjI ballI)
      fix r j m assume rj: "requestIdToMessageId s r = Some j"
      show "j < nextMessageId s" using i2 rj by blast
      assume m: "m \<in> set ms'" "id_msg m = j"
      show "truthyStr (requestId m)"
        using shape[OF m(1)] i2 rj m(2) by fastforce
    qed
    have c3: "\<forall>m \<in> set ms'.
         (uncorrelatedTransport (transport m) \<longrightarrow> requestId m = None) \<and>
          (\<not> uncorrelatedTransport (transport m) \<longrightarrow>
             transport m \<in> {''GET'', ''POST'', ''JSON'', ''SOAP''} \<and> requestId m \<noteq> None)"
    proof
      fix m assume m: "m \<in> set ms'"
      show "(uncorrelatedTransport (transport m) \<longrightarrow> requestId m = None) \<and>
          (\<not> uncorrelatedTransport (transport m) \<longrightarrow>
             transport m \<in> {''GET'', ''POST'', ''JSON'', ''SOAP''} \<and> requestId m \<noteq> None)"
        using shape[OF m] i3 by fastforce
    qed
    have c4: "\<forall>m \<in> set ms'.
         \<not> truthyStr (requestId m) \<longrightarrow> statusCode m = None \<and> responseHeaders m = None"
    proof
      fix m assume m: "m \<in> set ms'"
      show "\<not> truthyStr (requestId m) \<longrightarrow> statusCode m = None \<and> responseHeaders m = None"
        using shape[OF m] i4 by fastforce
    qed
    show ?thesis unfolding res correlationInv_def using c1 c2 c3 c4 by simp
  qed
qed

lemma reachable_correlationInv: "(w, s) \<in> set (run env evs) \<Longrightarrow> correlationInv s"
proof (rule run_invariant[where P = correlationInv])
  show "\<And>w r c. correlationInv ((createSession w r)\<lparr>isCapturing := c\<rparr>)"
    by (simp add: correlationInv_def createSession_def)
  show "\<And>s T. correlationInv s \<Longrightarrow> correlationInv (s\<lparr>trackedTabIds := T\<rparr>)"
    by (simp add: correlationInv_def)
  show "\<And>s. correlationInv s \<Longrightarrow> correlationInv (clearSession s)"
    by (simp add: correlationInv_def clearSession_def)
  show "\<And>s dt. correlationInv s \<Longrightarrow> correlationInv (attachResponse s dt)"
    by (rule correlationInv_attachResponse)
  show "\<And>s now dt. correlationInv s \<Longrightarrow>
      correlationInv (fst (storeEntry s (\<lambda>i. possibleSAMLEntry env now i dt)))"
  proof (rule correlationInv_storeEntry)
    fix s now dt e
    assume "possibleSAMLEntry env now (nextMessageId s) dt = Some e"
    note p = possibleSAMLEntry_props[OF this]
    show "id_msg e = nextMessageId s \<and> statusCode e = None \<and> responseHeaders e = None \<and>
         ((uncorrelatedTransport (transport e) \<longrightarrow> requestId e = None) \<and>
          (\<not> uncorrelatedTransport (transport e) \<longrightarrow>
             transport e \<in> {''GET'', ''POST'', ''JSON'', ''SOAP''} \<and> requestId e \<noteq> None))"
      using p(1,3,4,5,6) by (auto simp: uncorrelatedTransport_def)
  qed
  show "\<And>s now dt n v r. correlationInv s \<Longrightarrow>
      correlationInv (fst (storeEntry s (\<lambda>i. headerEntry env now i dt n v r)))"
  proof (rule correlationInv_storeEntry)
    fix s now dt n v r e
    assume "headerEntry env now (nextMessageId s) dt n v r = Some e"
    note p = headerEntry_props[OF this]
    show "id_msg e = nextMessageId s \<and> statusCode e = None \<and> responseHeaders e = None \<and>
         ((uncorrelatedTransport (transport e) \<longrightarrow> requestId e = None) \<and>
          (\<not> uncorrelatedTransport (transport e) \<longrightarrow>
             transport e \<in> {''GET'', ''POST'', ''JSON'', ''SOAP''} \<and> requestId e \<noteq> None))"
      using p by (auto simp: uncorrelatedTransport_def)
  qed
  show "\<And>s now x. correlationInv s \<Longrightarrow>
      correlationInv (fst (storeEntry s (importEntry now x)))"
  proof (rule correlationInv_storeEntry)
    fix s now x e
    assume "importEntry now x (nextMessageId s) = Some e"
    note p = importEntry_props[OF this]
    show "id_msg e = nextMessageId s \<and> statusCode e = None \<and> responseHeaders e = None \<and>
         ((uncorrelatedTransport (transport e) \<longrightarrow> requestId e = None) \<and>
          (\<not> uncorrelatedTransport (transport e) \<longrightarrow>
             transport e \<in> {''GET'', ''POST'', ''JSON'', ''SOAP''} \<and> requestId e \<noteq> None))"
      using p by (auto simp: uncorrelatedTransport_def)
  qed
qed

lemma correlationInvD:
  assumes "correlationInv s" and "m \<in> set (messages s)"
  shows "uncorrelatedTransport (transport m) \<Longrightarrow> requestId m = None"
    and "\<not> uncorrelatedTransport (transport m) \<Longrightarrow>
           transport m \<in> {''GET'', ''POST'', ''JSON'', ''SOAP''}"
    and "requestId m \<noteq> None \<Longrightarrow> \<not> uncorrelatedTransport (transport m)"
    and "\<not> truthyStr (requestId m) \<Longrightarrow> statusCode m = None \<and> responseHeaders m = None"
    and "requestIdToMessageId s r = Some (id_msg m) \<Longrightarrow> truthyStr (requestId m)"
proof -
  note i = assms(1)[unfolded correlationInv_def]
  note i2 = i[THEN conjunct2, THEN conjunct1]
  note i3 = i[THEN conjunct2, THEN conjunct2, THEN conjunct1]
  note i4 = i[THEN conjunct2, THEN conjunct2, THEN conjunct2]
  have c3: "(uncorrelatedTransport (transport m) \<longrightarrow> requestId m = None) \<and>
         (\<not> uncorrelatedTransport (transport m) \<longrightarrow>
            transport m \<in> {''GET'', ''POST'', ''JSON'', ''SOAP''} \<and> requestId m \<noteq> None)"
    using i3 assms(2) by (rule bspec)
  note a = c3[THEN conjunct1] and b = c3[THEN conjunct2]
  show u: "uncorrelatedTransport (transport m) \<Longrightarrow> requestId m = None"
    using a by (rule mp)
  show "\<not> uncorrelatedTransport (transport m) \<Longrightarrow>
           transport m \<in> {''GET'', ''POST'', ''JSON'', ''SOAP''}"
    using b[THEN mp] by (rule conjunct1)
  show "requestId m \<noteq> None \<Longrightarrow> \<not> uncorrelatedTransport (transport m)"
  proof
    assume "requestId m \<noteq> None" "uncorrelatedTransport (transport m)"
    then show False using u by (elim notE) assumption
  qed
  have c4: "\<not> truthyStr (requestId m) \<longrightarrow> statusCode m = None \<and> responseHeaders m = None"
    using i4 assms(2) by (rule bspec)
  then show "\<not> truthyStr (requestId m) \<Longrightarrow> statusCode m = None \<and> responseHeaders m = None"
    by (rule mp)
  show "requestIdToMessageId s r = Some (id_msg m) \<Longrightarrow> truthyStr (requestId m)"
  proof -
    assume a: "requestIdToMessageId s r = Some (id_msg m)"
    have "requestIdToMessageId s r = Some (id_msg m) \<longrightarrow>
         id_msg m < nextMessageId s \<and>
         (\<forall>m' \<in> set (messages s). id_msg m' = id_msg m \<longrightarrow> truthyStr (requestId m'))"
      using i2 by (elim allE)
    then have "\<forall>m' \<in> set (messages s). id_msg m' = id_msg m \<longrightarrow> truthyStr (requestId m')"
      using a by (elim impE conjE) assumption+
    then have "id_msg m = id_msg m \<longrightarrow> truthyStr (requestId m)"
      using assms(2) by (rule bspec)
    then show ?thesis by simp
  qed
qed

subsection \<open>Candidates in a JSON body\<close>

lemma includesStr_startsWith: "startsWith t p \<Longrightarrow> includesStr t p"
  by (cases t) (auto simp: startsWith_def)

lemma includesStr_middle: "includesStr (a @ b @ rest) b"
proof (induction a)
  case Nil
  have "startsWith (b @ rest) b" by (simp add: startsWith_def)
  then show ?case by (simp add: includesStr_startsWith)
next
  case (Cons x a)
  then show ?case by simp
qed

lemma startsWith_decompose: "startsWith t p \<Longrightarrow> \<exists>rest. t = p @ rest"
  by (metis append_take_drop_id startsWith_def)

lemma includesStr_suffix_part: "includesStr s (a @ b) \<Longrightarrow> includesStr s b"
proof (induction s)
  case Nil
  then show ?case by simp
next
  case (Cons c cs)
  show ?case
  proof (cases "startsWith (c # cs) (a @ b)")
    case True
    then obtain rest where "c # cs = a @ b @ rest"
      using startsWith_decompose by fastforce
    then show ?thesis using includesStr_middle[of a b rest] by simp
  next
    case False
    then have "includesStr cs (a @ b)" using Cons.prems by simp
    then have "includesStr cs b" by (rule Cons.IH)
    then show ?thesis by simp
  qed
qed

lemma saml_named_request: "includesStr s ''samlrequest'' \<Longrightarrow> includesStr s ''request''"
  using includesStr_suffix_part[of s "''saml''" "''request''"] by simp

lemma saml_named_response: "includesStr s ''samlresponse'' \<Longrightarrow> includesStr s ''response''"
  using includesStr_suffix_part[of s "''saml''" "''response''"] by simp

lemma firstBase64Item_first:
  assumes "\<forall>it \<in> set pre. \<not> looksLikeBase64 (snd it)" and "looksLikeBase64 v"
  shows "firstBase64Item (pre @ (k, v) # post) =
           Some \<lparr>c_name = jsonCandidateName k, c_value = v, c_transport = ''JSON''\<rparr>"
  using assms
proof (induction pre)
  case Nil
  then show ?case by (simp add: jsonCandidateName_def)
next
  case (Cons it pre)
  obtain n w where it: "it = (n, w)" by (cases it)
  show ?case using Cons by (simp add: it)
qed

lemma firstBase64Item_none:
  "\<forall>it \<in> set items. \<not> looksLikeBase64 (snd it) \<Longrightarrow> firstBase64Item items = None"
  by (induction items rule: firstBase64Item.induct) simp_all

subsection \<open>Base64: decoding and encoding again\<close>

lemma alphabet_facts:
  "length base64Alphabet = 64" "distinct base64Alphabet"
  "CHR ''='' \<notin> set base64Alphabet"
  "list_all (\<lambda>c. \<not> isAsciiWhitespace c) base64Alphabet"
  "\<not> isAsciiWhitespace CHR ''=''"
  by code_simp+

lemma indexOf_nth: "x \<in> set xs \<Longrightarrow> indexOf xs x < length xs \<and> xs ! indexOf xs x = x"
  by (induction xs) auto

lemma indexOf_of_nth: "distinct xs \<Longrightarrow> n < length xs \<Longrightarrow> indexOf xs (xs ! n) = n"
proof (induction xs arbitrary: n)
  case Nil
  then show ?case by simp
next
  case (Cons a xs)
  then show ?case by (cases n) auto
qed

lemma sextet_lt: "isBase64Char c \<Longrightarrow> sextet c < 64"
  using indexOf_nth[of c base64Alphabet] alphabet_facts(1)
  unfolding isBase64Char_def sextet_def by simp

lemma alphabet_sextet: "isBase64Char c \<Longrightarrow> base64Alphabet ! sextet c = c"
  using indexOf_nth[of c base64Alphabet] unfolding isBase64Char_def sextet_def by simp

lemma sextet_alphabet: "n < 64 \<Longrightarrow> sextet (base64Alphabet ! n) = n"
  using indexOf_of_nth[of base64Alphabet n] alphabet_facts(1,2) unfolding sextet_def by simp

lemma alphabet_char: "n < 64 \<Longrightarrow> isBase64Char (base64Alphabet ! n)"
  using alphabet_facts(1) unfolding isBase64Char_def by simp

lemma base64_not_pad: "isBase64Char c \<Longrightarrow> c \<noteq> CHR ''=''"
  using alphabet_facts(3) unfolding isBase64Char_def by blast

lemma base64_not_space: "isBase64Char c \<Longrightarrow> \<not> isAsciiWhitespace c"
  using alphabet_facts(4) unfolding isBase64Char_def list_all_iff by blast

lemma group_arith:
  fixes a b c d :: nat
  assumes "a < 64" "b < 64" "c < 64" "d < 64"
  shows "(a * 4 + b div 16) div 4 = a"
    and "((a * 4 + b div 16) mod 4) * 16 + ((b mod 16) * 16 + c div 4) div 16 = b"
    and "(((b mod 16) * 16 + c div 4) mod 16) * 4 + ((c mod 4) * 64 + d) div 64 = c"
    and "((c mod 4) * 64 + d) mod 64 = d"
    and "a * 4 + b div 16 < 256" "(b mod 16) * 16 + c div 4 < 256" "(c mod 4) * 64 + d < 256"
proof -
  have b4: "b div 16 < 4" using assms(2) by simp
  have c16: "c div 4 < 16" using assms(3) by simp
  show "(a * 4 + b div 16) div 4 = a" using b4 by simp
  have "(a * 4 + b div 16) mod 4 = b div 16" using b4 by simp
  moreover have "((b mod 16) * 16 + c div 4) div 16 = b mod 16" using c16 by simp
  ultimately show "((a * 4 + b div 16) mod 4) * 16 + ((b mod 16) * 16 + c div 4) div 16 = b"
    by simp
  have "((b mod 16) * 16 + c div 4) mod 16 = c div 4" using c16 by simp
  moreover have "((c mod 4) * 64 + d) div 64 = c mod 4" using assms(4) by simp
  ultimately show "(((b mod 16) * 16 + c div 4) mod 16) * 4 + ((c mod 4) * 64 + d) div 64 = c"
    by simp
  show "((c mod 4) * 64 + d) mod 64 = d" using assms(4) by simp
  show "a * 4 + b div 16 < 256" using assms(1) b4 by simp
  have "b mod 16 < 16" by simp
  then have "(b mod 16) * 16 \<le> 15 * 16" by simp
  then show "(b mod 16) * 16 + c div 4 < 256" using c16 by simp
  have "c mod 4 < 4" by simp
  then have "(c mod 4) * 64 \<le> 3 * 64" by simp
  then show "(c mod 4) * 64 + d < 256" using assms(4) by simp
qed

lemma unat_byte: "n < 256 \<Longrightarrow> unat (of_char (char_of n) :: 8 word) = n"
proof -
  assume n: "n < 256"
  have "(of_char (char_of n) :: 8 word) = of_nat (of_char (char_of n))"
    by (rule of_nat_of_char[symmetric])
  also have "(of_char (char_of n) :: nat) = n mod 256" by (rule of_char_of)
  finally have "unat (of_char (char_of n) :: 8 word) = unat (of_nat (n mod 256) :: 8 word)"
    by simp
  then show ?thesis using n by (simp add: unat_of_nat)
qed

lemma bytes_roundtrip:
  "\<forall>n \<in> set ns. n < 256 \<Longrightarrow>
     map unat (map (\<lambda>c. of_char c :: 8 word) (map char_of ns)) = ns"
  by (induction ns) (simp_all add: unat_byte)

lemma stripPadding_Cons4:
  assumes "length rest mod 4 = 0" and "rest \<noteq> []"
  shows "stripPadding (a # b # c # d # rest) = a # b # c # d # stripPadding rest"
proof -
  have len: "length (a # b # c # d # rest) mod 4 = 0" using assms(1) by simp
  have "length rest \<ge> 4"
  proof (rule ccontr)
    assume "\<not> 4 \<le> length rest"
    then have "length rest < 4" by simp
    then have "length rest mod 4 = length rest" by simp
    then show False using assms by simp
  qed
  then have bl: "butlast rest \<noteq> []" by (cases rest rule: rev_cases) auto
  have l1: "last (a # b # c # d # rest) = last rest" using assms(2) by simp
  have b1: "butlast (a # b # c # d # rest) = a # b # c # d # butlast rest"
    using assms(2) by simp
  have l2: "last (a # b # c # d # butlast rest) = last (butlast rest)" using bl by simp
  have b2: "butlast (a # b # c # d # butlast rest) = a # b # c # d # butlast (butlast rest)"
    using bl by simp
  show ?thesis
    unfolding stripPadding_def len b1 l1 Let_def l2 b2
    using assms bl by simp
qed

lemma canonical_length: "canonicalBase64 b \<Longrightarrow> length b mod 4 = 0"
proof (induction b rule: canonicalBase64.induct)
  case (3 a b c d v va)
  then have "length (v # va) mod 4 = 0" by simp
  moreover have "length (a # b # c # d # v # va) = length (v # va) + 4" by simp
  ultimately show ?case by (simp only: mod_add_self2)
qed simp_all

lemma canonical_chars: "canonicalBase64 b \<Longrightarrow> c \<in> set b \<Longrightarrow> isBase64Char c \<or> c = CHR ''=''"
  by (induction b rule: canonicalBase64.induct) (auto split: if_splits)

lemma canonical_no_space:
  "canonicalBase64 b \<Longrightarrow> filter (\<lambda>c. \<not> isAsciiWhitespace c) b = b"
proof -
  assume cb: "canonicalBase64 b"
  have "\<not> isAsciiWhitespace c" if "c \<in> set b" for c
    using canonical_chars[OF cb that] base64_not_space alphabet_facts(5) by blast
  then show ?thesis by (simp add: filter_id_conv)
qed

lemma group_decode_encode:
  assumes "isBase64Char a" "isBase64Char b" "isBase64Char c" "isBase64Char d"
  shows "encodeSextets (decodeSextets (sextet a # sextet b # sextet c # sextet d # rest)) =
           a # b # c # d # encodeSextets (decodeSextets rest)"
proof -
  note lt = sextet_lt[OF assms(1)] sextet_lt[OF assms(2)] sextet_lt[OF assms(3)]
    sextet_lt[OF assms(4)]
  note g = group_arith[OF lt]
  show ?thesis
    by (simp only: decodeSextets.simps encodeSextets.simps append_Cons append_Nil
        g(1,2,3,4) alphabet_sextet[OF assms(1)] alphabet_sextet[OF assms(2)]
        alphabet_sextet[OF assms(3)] alphabet_sextet[OF assms(4)])
qed

lemma group_bytes:
  assumes "isBase64Char a" "isBase64Char b" "isBase64Char c" "isBase64Char d"
    and "\<forall>n \<in> set (decodeSextets rest). n < 256"
  shows "\<forall>n \<in> set (decodeSextets (sextet a # sextet b # sextet c # sextet d # rest)). n < 256"
proof -
  note lt = sextet_lt[OF assms(1)] sextet_lt[OF assms(2)] sextet_lt[OF assms(3)]
    sextet_lt[OF assms(4)]
  note g = group_arith[OF lt]
  have "decodeSextets (sextet a # sextet b # sextet c # sextet d # rest) =
      (sextet a * 4 + sextet b div 16) # ((sextet b mod 16) * 16 + sextet c div 4) #
      ((sextet c mod 4) * 64 + sextet d) # decodeSextets rest"
    by (simp only: decodeSextets.simps append_Cons append_Nil)
  then show ?thesis using g(5,6,7) assms(5) by simp
qed

lemma strip_two: "stripPadding [a, b, CHR ''='', CHR ''=''] = [a, b]"
  by (simp add: stripPadding_def)

lemma strip_one: "c \<noteq> CHR ''='' \<Longrightarrow> stripPadding [a, b, c, CHR ''=''] = [a, b, c]"
  by (simp add: stripPadding_def)

lemma strip_none: "d \<noteq> CHR ''='' \<Longrightarrow> stripPadding [a, b, c, d] = [a, b, c, d]"
  by (simp add: stripPadding_def)

lemma pad_arith:
  fixes a b c :: nat
  assumes "a < 64" "b < 64" "c < 64"
  shows "b mod 16 = 0 \<Longrightarrow> ((a * 4 + b div 16) mod 4) * 16 = b"
    and "c mod 4 = 0 \<Longrightarrow> (((b mod 16) * 16 + c div 4) mod 16) * 4 = c"
proof -
  have b4: "b div 16 < 4" using assms(2) by simp
  have c16: "c div 4 < 16" using assms(3) by simp
  have m1: "(a * 4 + b div 16) mod 4 = b div 16" "b div 16 mod 4 = b div 16" using b4 by simp_all
  have m2: "((b mod 16) * 16 + c div 4) mod 16 = c div 4" "c div 4 mod 16 = c div 4"
    using c16 by simp_all
  show "((a * 4 + b div 16) mod 4) * 16 = b" if "b mod 16 = 0"
  proof -
    have "b div 16 * 16 + b mod 16 = b" by (rule div_mult_mod_eq)
    then show ?thesis using that by (simp add: m1)
  qed
  show "(((b mod 16) * 16 + c div 4) mod 16) * 4 = c" if "c mod 4 = 0"
  proof -
    have "c div 4 * 4 + c mod 4 = c" by (rule div_mult_mod_eq)
    then show ?thesis using that by (simp add: m2)
  qed
qed

lemma last_group_two:
  assumes ab: "isBase64Char a" "isBase64Char b" and z: "sextet b mod 16 = 0"
  shows "decodeSextets (map sextet [a, b]) = [sextet a * 4 + sextet b div 16]"
    and "sextet a * 4 + sextet b div 16 < 256"
    and "encodeSextets [sextet a * 4 + sextet b div 16] = [a, b, CHR ''='', CHR ''='']"
proof -
  note la = sextet_lt[OF ab(1)] and lb = sextet_lt[OF ab(2)]
  note g = group_arith[OF la lb lb lb]
  show "decodeSextets (map sextet [a, b]) = [sextet a * 4 + sextet b div 16]" by simp
  show "sextet a * 4 + sextet b div 16 < 256" by (rule g(5))
  show "encodeSextets [sextet a * 4 + sextet b div 16] = [a, b, CHR ''='', CHR ''='']"
    by (simp only: encodeSextets.simps g(1) pad_arith(1)[OF la lb lb z]
        alphabet_sextet[OF ab(1)] alphabet_sextet[OF ab(2)])
qed

lemma last_group_one:
  assumes abc: "isBase64Char a" "isBase64Char b" "isBase64Char c" and z: "sextet c mod 4 = 0"
  shows "decodeSextets (map sextet [a, b, c]) =
           [sextet a * 4 + sextet b div 16, (sextet b mod 16) * 16 + sextet c div 4]"
    and "sextet a * 4 + sextet b div 16 < 256"
    and "(sextet b mod 16) * 16 + sextet c div 4 < 256"
    and "encodeSextets [sextet a * 4 + sextet b div 16,
           (sextet b mod 16) * 16 + sextet c div 4] = [a, b, c, CHR ''='']"
proof -
  note la = sextet_lt[OF abc(1)] and lb = sextet_lt[OF abc(2)] and lc = sextet_lt[OF abc(3)]
  note g = group_arith[OF la lb lc lc]
  show "decodeSextets (map sextet [a, b, c]) =
           [sextet a * 4 + sextet b div 16, (sextet b mod 16) * 16 + sextet c div 4]" by simp
  show "sextet a * 4 + sextet b div 16 < 256" by (rule g(5))
  show "(sextet b mod 16) * 16 + sextet c div 4 < 256" by (rule g(6))
  show "encodeSextets [sextet a * 4 + sextet b div 16,
           (sextet b mod 16) * 16 + sextet c div 4] = [a, b, c, CHR ''='']"
    by (simp only: encodeSextets.simps g(1,2) pad_arith(2)[OF la lb lc z]
        alphabet_sextet[OF abc(1)] alphabet_sextet[OF abc(2)] alphabet_sextet[OF abc(3)])
qed

lemma roundTrips_Nil: "roundTrips []"
  by (simp add: roundTrips_def stripPadding_def)

lemma roundTrips_last:
  assumes ab: "isBase64Char a" "isBase64Char b"
    and rest: "if d = CHR ''='' then
         (if c = CHR ''='' then sextet b mod 16 = 0
          else isBase64Char c \<and> sextet c mod 4 = 0)
       else isBase64Char c \<and> isBase64Char d"
  shows "roundTrips [a, b, c, d]"
proof (cases "d = CHR ''=''")
  case True
  show ?thesis
  proof (cases "c = CHR ''=''")
    case c: True
    have z: "sextet b mod 16 = 0" using rest True c by simp
    note l = last_group_two[OF ab z]
    have sp: "stripPadding [a, b, c, d] = [a, b]" unfolding True c by (rule strip_two)
    show ?thesis
      unfolding roundTrips_def sp l(1) l(3)
      using ab l(2) True c by simp
  next
    case c: False
    have cz: "isBase64Char c" "sextet c mod 4 = 0" using rest True c by simp_all
    note l = last_group_one[OF ab cz]
    have sp: "stripPadding [a, b, c, d] = [a, b, c]" unfolding True using c by (rule strip_one)
    show ?thesis
      unfolding roundTrips_def sp l(1) l(4)
      using ab cz(1) l(2,3) True by simp
  qed
next
  case False
  have cd: "isBase64Char c" "isBase64Char d" using rest False by simp_all
  have sp: "stripPadding [a, b, c, d] = [a, b, c, d]" using False by (rule strip_none)
  have m: "map sextet [a, b, c, d] = sextet a # sextet b # sextet c # sextet d # []" by simp
  have e0: "encodeSextets (decodeSextets []) = []" by simp
  have b0: "\<forall>n \<in> set (decodeSextets []). n < 256" by simp
  have enc: "encodeSextets (decodeSextets (sextet a # sextet b # sextet c # sextet d # [])) =
      [a, b, c, d]"
    using group_decode_encode[OF ab cd, of "[]"] by (simp only: e0)
  note bnd = group_bytes[OF ab cd b0]
  show ?thesis
    unfolding roundTrips_def sp m enc
    using ab cd bnd by simp
qed

lemma roundTrips_Cons4:
  assumes abcd: "isBase64Char a" "isBase64Char b" "isBase64Char c" "isBase64Char d"
    and len: "length rest mod 4 = 0" and ne: "rest \<noteq> []" and ih: "roundTrips rest"
  shows "roundTrips (a # b # c # d # rest)"
proof -
  let ?r = "stripPadding rest"
  have sp: "stripPadding (a # b # c # d # rest) = a # b # c # d # ?r"
    using len ne by (rule stripPadding_Cons4)
  have m: "map sextet (a # b # c # d # ?r) =
      sextet a # sextet b # sextet c # sextet d # map sextet ?r" by simp
  have ih1: "list_all isBase64Char ?r" and ih2: "length ?r mod 4 \<noteq> 1"
    and ih3: "\<forall>n \<in> set (decodeSextets (map sextet ?r)). n < 256"
    and ih4: "encodeSextets (decodeSextets (map sextet ?r)) = rest"
    using ih unfolding roundTrips_def by simp_all
  have enc: "encodeSextets (decodeSextets
      (sextet a # sextet b # sextet c # sextet d # map sextet ?r)) = a # b # c # d # rest"
    using group_decode_encode[OF abcd, of "map sextet ?r"] by (simp only: ih4)
  note bnd = group_bytes[OF abcd ih3]
  have l: "length (a # b # c # d # ?r) mod 4 = length ?r mod 4"
  proof -
    have "length (a # b # c # d # ?r) = length ?r + 4" by simp
    then show ?thesis by (simp only: mod_add_self2)
  qed
  show ?thesis
    unfolding roundTrips_def sp m enc l
    using abcd ih1 ih2 bnd by simp
qed

lemma canonical_roundTrips: "canonicalBase64 b \<Longrightarrow> roundTrips b"
proof (induction b rule: canonicalBase64.induct)
  case 1
  show ?case by (rule roundTrips_Nil)
next
  case (2 a b c d)
  then show ?case using roundTrips_last[of a b d c] by simp
next
  case (3 a b c d v va)
  then have c: "canonicalBase64 (v # va)" and abcd: "isBase64Char a" "isBase64Char b"
    "isBase64Char c" "isBase64Char d" by simp_all
  have "roundTrips (v # va)" using 3 c by simp
  then show ?case
    using roundTrips_Cons4[OF abcd canonical_length[OF c]] by simp
qed simp_all

lemma atob_canonical:
  assumes "canonicalBase64 b"
  shows "atob b = Some (map char_of (decodeSextets (map sextet (stripPadding b))))"
proof -
  note r = canonical_roundTrips[OF assms, unfolded roundTrips_def]
  have f: "filter (\<lambda>c. \<not> isAsciiWhitespace c) b = b" using assms by (rule canonical_no_space)
  show ?thesis
    unfolding atob_def f Let_def using r by simp
qed

lemma canonical_decode_encode:
  assumes "canonicalBase64 b"
  shows "\<exists>bs. b64ToBytes b = Some bs \<and> base64Encode bs = b"
proof -
  note r = canonical_roundTrips[OF assms, unfolded roundTrips_def]
  let ?ns = "decodeSextets (map sextet (stripPadding b))"
  have bnd: "\<forall>n \<in> set ?ns. n < 256" using r by simp
  have dec: "b64ToBytes b = Some (map (\<lambda>c. of_char c :: 8 word) (map char_of ?ns))"
    unfolding b64ToBytes_def atob_canonical[OF assms] by simp
  have "base64Encode (map (\<lambda>c. of_char c :: 8 word) (map char_of ?ns)) = encodeSextets ?ns"
    unfolding base64Encode_def bytes_roundtrip[OF bnd] ..
  also have "\<dots> = b" using r by simp
  finally show ?thesis using dec by blast
qed

lemma canonical_Cons4:
  assumes "isBase64Char a" "isBase64Char b" "isBase64Char c" "isBase64Char d"
  shows "canonicalBase64 (a # b # c # d # rest) = canonicalBase64 rest"
proof (cases rest)
  case Nil
  then show ?thesis using assms base64_not_pad[OF assms(4)] by simp
next
  case (Cons v va)
  then show ?thesis using assms by simp
qed

lemma encode_index_bounds:
  fixes a b c :: nat
  assumes "a < 256" "b < 256" "c < 256"
  shows "a div 4 < 64" "(a mod 4) * 16 + b div 16 < 64" "(b mod 16) * 4 + c div 64 < 64"
    "c mod 64 < 64" "(a mod 4) * 16 < 64" "(b mod 16) * 4 < 64"
proof -
  have a4: "a mod 4 < 4" and b16: "b mod 16 < 16" by simp_all
  have bd: "b div 16 < 16" using assms(2) by simp
  have cd: "c div 64 < 4" using assms(3) by simp
  show "a div 4 < 64" using assms(1) by simp
  have "(a mod 4) * 16 \<le> 3 * 16" using a4 by simp
  then show "(a mod 4) * 16 + b div 16 < 64" "(a mod 4) * 16 < 64" using bd by simp_all
  have "(b mod 16) * 4 \<le> 15 * 4" using b16 by simp
  then show "(b mod 16) * 4 + c div 64 < 64" "(b mod 16) * 4 < 64" using cd by simp_all
  show "c mod 64 < 64" by simp
qed

lemma canonical_encodeSextets:
  "\<forall>n \<in> set ns. n < 256 \<Longrightarrow> canonicalBase64 (encodeSextets ns)"
proof (induction ns rule: encodeSextets.induct)
  case (1 a b c rest)
  then have lt: "a < 256" "b < 256" "c < 256" and r: "\<forall>n \<in> set rest. n < 256" by simp_all
  note i = encode_index_bounds[OF lt]
  have e: "encodeSextets (a # b # c # rest) =
      base64Alphabet ! (a div 4) # base64Alphabet ! ((a mod 4) * 16 + b div 16) #
      base64Alphabet ! ((b mod 16) * 4 + c div 64) # base64Alphabet ! (c mod 64) #
      encodeSextets rest"
    by simp
  show ?case
    unfolding e
    using canonical_Cons4[OF alphabet_char[OF i(1)] alphabet_char[OF i(2)]
        alphabet_char[OF i(3)] alphabet_char[OF i(4)], of "encodeSextets rest"]
      "1.IH"[OF r]
    by simp
next
  case (2 a b)
  then have lt: "a < 256" "b < 256" by simp_all
  note i = encode_index_bounds[OF lt lt(2)]
  have ne: "base64Alphabet ! ((b mod 16) * 4) \<noteq> CHR ''=''"
    using base64_not_pad[OF alphabet_char[OF i(6)]] .
  have z: "sextet (base64Alphabet ! ((b mod 16) * 4)) mod 4 = 0"
    unfolding sextet_alphabet[OF i(6)] by simp
  show ?case
    using alphabet_char[OF i(1)] alphabet_char[OF i(2)] alphabet_char[OF i(6)] ne z
    by (simp del: sextet_def)
next
  case (3 a)
  then have lt: "a < 256" by simp
  note i = encode_index_bounds[OF lt lt lt]
  have z: "sextet (base64Alphabet ! ((a mod 4) * 16)) mod 16 = 0"
    unfolding sextet_alphabet[OF i(5)] by simp
  show ?case
    using alphabet_char[OF i(1)] alphabet_char[OF i(5)] z by simp
next
  case 4
  show ?case by simp
qed

lemma canonical_base64Encode: "canonicalBase64 (base64Encode bs)"
proof -
  have "\<forall>n \<in> set (map unat bs). n < 256"
  proof
    fix n assume "n \<in> set (map unat bs)"
    then obtain w :: "8 word" where "n = unat w" by auto
    then show "n < 256" using unsigned_less[of w, where ?'a = nat] by simp
  qed
  then show ?thesis unfolding base64Encode_def by (rule canonical_encodeSextets)
qed

lemma roundtrip_facts:
  "canonicalBase64 ''PGEvPg==''" "\<not> canonicalBase64 ''YQ''"
  by code_simp+

lemma run_start: "run env [(now, StartCaptureMsg 1 5)] = [(1, startedSession)]"
  by (simp add: run_def startCaptureMessage_def getSessionByWindowId_def startCapture_def
      setSession_def startedSession_def)

lemma oneMessageSession_fields:
  "messages oneMessageSession = [firstMessage\<lparr>id_msg := 1\<rparr>]"
  "seenKeys oneMessageSession = {''SAMLRequest|<a/>''}"
  "nextMessageId oneMessageSession = 2"
  "requestIdToMessageId oneMessageSession = [''r1'' \<mapsto> 1]"
  by (simp_all add: oneMessageSession_def storeEntry_def addMessage_def startedSession_def
      createSession_def firstMessage_def sampleMessage_def makeDedupKey_def
      registerRequestId_def enforceLimit_def MAX_MESSAGES_def)

lemma redirect_run:
  "run redirectHost [(sampleTime, StartCaptureMsg 1 5), (sampleTime, BeforeRequest redirectDetails)]
     = [(1, redirectSession)]"
  by (simp add: run_def startCaptureMessage_def getSessionByWindowId_def startCapture_def
      setSession_def handlePossibleSAML_def createSession_def putSession_def
      redirectSession_def startedSession_def redirectDetails_def)

lemma redirect_entry:
  "possibleSAMLEntry redirectHost sampleTime 1 redirectDetails =
     Some \<lparr>id_msg = 1, kind = ''SAMLRequest'', transport = ''GET'',
           url = ''https://idp.example/sso?SAMLRequest=PGEvPg%3D%3D'', time = sampleTime,
           xml = ''<a/>'', tabId = 5, source = None, base64 = Some ''PGEvPg=='',
           encoding = Some ''deflate-raw'', relayState = None, httpMethod = Some ''GET'',
           requestHeaders = Some [], requestId = Some ''r1'', statusCode = None,
           responseHeaders = None\<rparr>"
  by code_simp

lemma redirect_found:
  "(case extractFromQuery redirectHost (d_url redirectDetails) of Some f \<Rightarrow> Some f
     | None \<Rightarrow> extractFromBody redirectHost redirectDetails)
   = Some \<lparr>c_name = ''SAMLRequest'', c_value = ''PGEvPg=='', c_transport = ''GET''\<rparr>"
  by code_simp

lemma redirect_messages:
  "messages redirectSession =
     [\<lparr>id_msg = 1, kind = ''SAMLRequest'', transport = ''GET'',
           url = ''https://idp.example/sso?SAMLRequest=PGEvPg%3D%3D'', time = sampleTime,
           xml = ''<a/>'', tabId = 5, source = None, base64 = Some ''PGEvPg=='',
           encoding = Some ''deflate-raw'', relayState = None, httpMethod = Some ''GET'',
           requestHeaders = Some [], requestId = Some ''r1'', statusCode = None,
           responseHeaders = None\<rparr>]"
proof -
  have n: "nextMessageId startedSession = 1"
    by (simp add: startedSession_def createSession_def)
  show ?thesis
    unfolding redirectSession_def storeEntry_def n redirect_entry option.case
    by (simp add: startedSession_def createSession_def addMessage_def
        makeDedupKey_def registerRequestId_def enforceLimit_def MAX_MESSAGES_def)
qed

lemma header_entry:
  "headerEntry plainHost sampleTime 1 headerDetails ''SAMLResponse'' ''PGEvPg=='' True =
     Some \<lparr>id_msg = 1, kind = ''SAMLResponse'', transport = ''HEADER(req)'',
           url = ''https://sp.example/acs'', time = sampleTime, xml = ''<a/>'', tabId = 5,
           source = Some ''header'', base64 = None, encoding = None, relayState = None,
           httpMethod = None, requestHeaders = None, requestId = None, statusCode = None,
           responseHeaders = None\<rparr>"
  by code_simp

lemma header_messages:
  "messages headerSession =
     [\<lparr>id_msg = 1, kind = ''SAMLResponse'', transport = ''HEADER(req)'',
           url = ''https://sp.example/acs'', time = sampleTime, xml = ''<a/>'', tabId = 5,
           source = Some ''header'', base64 = None, encoding = None, relayState = None,
           httpMethod = None, requestHeaders = None, requestId = None, statusCode = None,
           responseHeaders = None\<rparr>]"
proof -
  have n: "nextMessageId startedSession = 1"
    by (simp add: startedSession_def createSession_def)
  show ?thesis
    unfolding headerSession_def handleHeaderValue_def storeEntry_def n header_entry option.case
    by (simp add: startedSession_def createSession_def addMessage_def
        makeDedupKey_def registerRequestId_def enforceLimit_def MAX_MESSAGES_def)
qed

lemma lower_samlresponse: "toLowerCase ''SAMLResponse'' = ''samlresponse''"
  by code_simp

lemma header_run:
  "run plainHost [(sampleTime, StartCaptureMsg 1 5), (sampleTime, BeforeSendHeaders headerDetails)]
     = [(1, headerSession)]"
  by (simp add: run_def startCaptureMessage_def getSessionByWindowId_def startCapture_def
      setSession_def tryHandleHeaderSAML_def createSession_def putSession_def
      headerSession_def startedSession_def headerDetails_def headerStep_def
      lower_samlresponse Let_def)

lemma completed_headers:
  "filterHeaders [''content-type'', ''location'', ''set-cookie'']
     (d_responseHeaders (completedDetails ''r1'')) = [(''Content-Type'', Some ''text/html'')]"
  by code_simp

lemma redirect_index: "requestIdToMessageId redirectSession ''r1'' = Some 1"
proof -
  have n: "nextMessageId startedSession = 1"
    by (simp add: startedSession_def createSession_def)
  show ?thesis
    unfolding redirectSession_def storeEntry_def n redirect_entry option.case
    by (simp add: startedSession_def createSession_def addMessage_def
        makeDedupKey_def registerRequestId_def enforceLimit_def MAX_MESSAGES_def)
qed

lemma answered_messages:
  "messages answeredSession =
     [\<lparr>id_msg = 1, kind = ''SAMLRequest'', transport = ''GET'',
           url = ''https://idp.example/sso?SAMLRequest=PGEvPg%3D%3D'', time = sampleTime,
           xml = ''<a/>'', tabId = 5, source = None, base64 = Some ''PGEvPg=='',
           encoding = Some ''deflate-raw'', relayState = None, httpMethod = Some ''GET'',
           requestHeaders = Some [], requestId = Some ''r1'', statusCode = Some 200,
           responseHeaders = Some [(''Content-Type'', Some ''text/html'')]\<rparr>]"
proof -
  have r: "d_requestId (completedDetails ''r1'') = ''r1''"
    "d_statusCode (completedDetails ''r1'') = Some 200"
    by (simp_all add: completedDetails_def)
  show ?thesis
    unfolding answeredSession_def attachResponse_def r redirect_index completed_headers
      redirect_messages
    by simp
qed

lemma answered_run:
  "run redirectHost [(sampleTime, StartCaptureMsg 1 5), (sampleTime, BeforeRequest redirectDetails),
       (sampleTime, Completed (completedDetails ''r1''))]
     = [(1, answeredSession)]"
proof -
  have "run redirectHost ([(sampleTime, StartCaptureMsg 1 5),
       (sampleTime, BeforeRequest redirectDetails)] @ [(sampleTime, Completed (completedDetails ''r1''))])
     = [(1, answeredSession)]"
    unfolding run_append redirect_run
    by (simp add: attachResponseData_def redirectSession_def storeEntry_def
        startedSession_def createSession_def putSession_def completedDetails_def
        answeredSession_def split: option.splits)
  then show ?thesis by simp
qed

lemma walkEntries_concat: "walkEntries es = concat (map (\<lambda>e. walk (snd e) (fst e)) es)"
  by (induction es) simp_all

lemma walkElements_concat:
  "walkElements i xs =
     concat (map (\<lambda>p. walk (snd p) (decimal (fst p))) (zip [i..<i + length xs] xs))"
proof (induction xs arbitrary: i)
  case Nil
  then show ?case by simp
next
  case (Cons x xs)
  have "[i..<i + length (x # xs)] = i # [Suc i..<Suc i + length xs]"
    by (subst upt_rec) simp
  then show ?case using Cons by simp
qed

lemma skipped_facts:
  "extractFromFormData (jsonDetails skippedText) = None"
  "decodeRawBody jsonHost (jsonDetails skippedText) = Some skippedText"
  "jsonParse jsonHost skippedText = Some skippedObject"
  "walk skippedObject [] =
     [(''samlRequest'', ''n/a'')] @ (''samlResponse'', ''PHNhbWxwOlJlc3BvbnNlLz4='') # []"
  "looksLikeBase64 ''PHNhbWxwOlJlc3BvbnNlLz4='' \<and>
     (includesStr (toLowerCase ''samlResponse'') ''samlresponse'' \<or>
      includesStr (toLowerCase ''samlResponse'') ''samlrequest'')"
  "jsonCandidateName ''samlResponse'' = ''SAMLResponse''"
  "\<not> looksLikeBase64 ''n/a''"
  by code_simp+

section \<open>The claims\<close>

text \<open>
  C1. In every session that the engine can reach, appending a message with XML \<open>x\<close> and
  one of the code's kinds \<open>k\<close> and then a second message with the same kind and XML,
  whatever its other fields, drops the second: the session is exactly as after the first
  append, the result is \<^verbatim>\<open>false\<close>, and exactly one stored message has that kind and
  XML. If instead the second message has the same XML and a different kind, then both
  are retained: when the first was stored and the key of the second was not already seen,
  the second is stored too and both are in the sequence afterwards.
\<close>

theorem dedup_idempotent:
  assumes reach: "(w, s) \<in> set (run env evs)" and k1: "knownKind (kind e1)"
  shows
    "(kind e2 = kind e1 \<and> xml e2 = xml e1 \<longrightarrow>
        addMessage (fst (addMessage s e1)) e2 = (fst (addMessage s e1), False) \<and>
        length (filter (\<lambda>m. kind m = kind e1 \<and> xml m = xml e1)
          (messages (fst (addMessage (fst (addMessage s e1)) e2)))) = 1) \<and>
     (kind e3 \<noteq> kind e1 \<and> xml e3 = xml e1 \<and> snd (addMessage s e1) \<and>
      dedupKeyOf e3 \<notin> seenKeys s \<longrightarrow>
        snd (addMessage (fst (addMessage s e1)) e3) \<and>
        e1 \<in> set (messages (fst (addMessage (fst (addMessage s e1)) e3))) \<and>
        e3 \<in> set (messages (fst (addMessage (fst (addMessage s e1)) e3))))"
proof (intro conjI impI)
  define s1 where "s1 = fst (addMessage s e1)"
  have inv: "storeInv s" using reach by (rule reachable_storeInv)
  have inv1: "storeInv s1" unfolding s1_def using inv by (rule storeInv_addMessage)
  have kinds1: "kindsInv s1"
  proof -
    have "kindsInv s" using reach by (rule reachable_kindsInv)
    then show ?thesis
      using addMessage_messages_subset[of s e1] k1
      by (auto simp: s1_def kindsInv_def list_all_iff)
  qed
  have seen1: "dedupKeyOf e1 \<in> seenKeys s1"
  proof (cases "dedupKeyOf e1 \<in> seenKeys s")
    case True
    then show ?thesis by (simp add: s1_def addMessage_dup)
  next
    case False
    have "e1 \<in> set (messages s1)"
      unfolding s1_def addMessage_new_snoc[OF False] by simp
    then show ?thesis using inv1 by (auto simp: storeInv_def)
  qed
  {
    assume same: "kind e2 = kind e1 \<and> xml e2 = xml e1"
    then have key2: "dedupKeyOf e2 = dedupKeyOf e1" by (simp add: dedupKeyOf_def)
    show dropped: "addMessage (fst (addMessage s e1)) e2 = (fst (addMessage s e1), False)"
      using seen1 key2 by (simp add: addMessage_dup s1_def)
    from seen1 inv1 obtain m where m: "m \<in> set (messages s1)" "dedupKeyOf m = dedupKeyOf e1"
      by (auto simp: storeInv_def)
    have "knownKind (kind m)" using kinds1 m(1) by (auto simp: kindsInv_def list_all_iff)
    then have "kind m = kind e1 \<and> xml m = xml e1"
      using m(2) k1 makeDedupKey_inj[of "kind m" "kind e1" "xml m" "xml e1"]
      by (simp add: dedupKeyOf_def knownKind_no_bar)
    then have "length (filter (\<lambda>m'. kind m' = kind e1 \<and> xml m' = xml e1) (messages s1)) = 1"
      using same_pair_count[of "messages s1" m] m(1) inv1 by (simp add: storeInv_def)
    then show "length (filter (\<lambda>m. kind m = kind e1 \<and> xml m = xml e1)
          (messages (fst (addMessage (fst (addMessage s e1)) e2)))) = 1"
      using dropped by (simp add: s1_def)
  }
  {
    assume h: "kind e3 \<noteq> kind e1 \<and> xml e3 = xml e1 \<and> snd (addMessage s e1) \<and>
      dedupKeyOf e3 \<notin> seenKeys s"
    then have new1: "dedupKeyOf e1 \<notin> seenKeys s" by (simp add: addMessage_snd_iff)
    have "dedupKeyOf e3 \<noteq> dedupKeyOf e1"
      using h by (simp add: dedupKeyOf_def makeDedupKey_same_xml)
    then have new3: "dedupKeyOf e3 \<notin> seenKeys s1"
      using h addMessage_seenKeys_subset[of s e1] by (auto simp: s1_def)
    show "snd (addMessage (fst (addMessage s e1)) e3)"
      using new3 by (simp add: addMessage_snd_iff s1_def)
    have m1: "messages s1 =
        (if length (messages s) \<ge> MAX_MESSAGES then tl (messages s) else messages s) @ [e1]"
      unfolding s1_def by (rule addMessage_new_snoc[OF new1])
    have m3: "messages (fst (addMessage s1 e3)) =
        (if length (messages s1) \<ge> MAX_MESSAGES then tl (messages s1) else messages s1) @ [e3]"
      by (rule addMessage_new_snoc[OF new3])
    show "e3 \<in> set (messages (fst (addMessage (fst (addMessage s e1)) e3)))"
      using m3 by (simp add: s1_def)
    have "e1 \<in> set (tl (messages s1))" if "length (messages s1) \<ge> MAX_MESSAGES"
    proof -
      obtain pre where pre: "messages s1 = pre @ [e1]" using m1 by simp
      with that MAX_MESSAGES_ge2 have "pre \<noteq> []" by auto
      then show ?thesis using pre by simp
    qed
    moreover have "e1 \<in> set (messages s1)" using m1 by simp
    ultimately show "e1 \<in> set (messages (fst (addMessage (fst (addMessage s e1)) e3)))"
      using m3 by (simp add: s1_def)
  }
qed

theorem dedup_idempotent_witness:
  "addMessage (fst (addMessage startedSession firstMessage)) retryMessage
     = (fst (addMessage startedSession firstMessage), False) \<and>
   length (filter (\<lambda>m. kind m = kind firstMessage \<and> xml m = xml firstMessage)
     (messages (fst (addMessage (fst (addMessage startedSession firstMessage)) retryMessage)))) = 1 \<and>
   firstMessage \<in> set (messages
     (fst (addMessage (fst (addMessage startedSession firstMessage)) otherKindMessage))) \<and>
   otherKindMessage \<in> set (messages
     (fst (addMessage (fst (addMessage startedSession firstMessage)) otherKindMessage)))"
proof -
  have r: "(1, startedSession) \<in> set (run plainHost [(sampleTime, StartCaptureMsg 1 5)])"
    by (simp add: run_start)
  have k: "knownKind (kind firstMessage)"
    by (simp add: knownKind_def firstMessage_def sampleMessage_def)
  have h2: "kind retryMessage = kind firstMessage \<and> xml retryMessage = xml firstMessage"
    by (simp add: firstMessage_def retryMessage_def sampleMessage_def)
  have h3: "kind otherKindMessage \<noteq> kind firstMessage \<and>
      xml otherKindMessage = xml firstMessage \<and>
      snd (addMessage startedSession firstMessage) \<and>
      dedupKeyOf otherKindMessage \<notin> seenKeys startedSession"
    by (simp add: firstMessage_def otherKindMessage_def sampleMessage_def addMessage_def
        startedSession_def createSession_def dedupKeyOf_def makeDedupKey_def)
  show ?thesis
    using dedup_idempotent[OF r k, of retryMessage otherKindMessage] h2 h3
    by blast
qed

text \<open>
  C2. In every session that the engine can reach, the number of stored messages is at
  most 1000. Appending 1001 messages of the code's kinds that differ pairwise in kind or
  XML to a fresh session leaves exactly 1000: those with the ids 2 to 1001, the first
  inserted one (id 1) being absent; its dedup key is no longer in the key set, its
  request identifier has no index entry, and a later append with its kind and XML is
  stored. In general, an append of a new key to a full session removes the oldest
  message together with its dedup key and its request-identifier index entry.
\<close>

theorem bounded_fifo_store:
  "((w, s) \<in> set (run env evs) \<longrightarrow> length (messages s) \<le> MAX_MESSAGES) \<and>
   (length es = MAX_MESSAGES + 1 \<and> list_all (\<lambda>m. knownKind (kind m)) es \<and>
    distinct (map kindAndXml es) \<longrightarrow>
      length (messages (appendAll (createSession w0 r0) es)) = MAX_MESSAGES \<and>
      map id_msg (messages (appendAll (createSession w0 r0) es)) = [2..<MAX_MESSAGES + 2] \<and>
      map kindAndXml (messages (appendAll (createSession w0 r0) es)) = map kindAndXml (tl es) \<and>
      kindAndXml (hd es) \<notin> set (map kindAndXml (messages (appendAll (createSession w0 r0) es))) \<and>
      dedupKeyOf (hd es) \<notin> seenKeys (appendAll (createSession w0 r0) es) \<and>
      (\<forall>r. requestId (hd es) = Some r \<and> r \<noteq> [] \<longrightarrow>
           requestIdToMessageId (appendAll (createSession w0 r0) es) r = None) \<and>
      (\<forall>e'. kindAndXml e' = kindAndXml (hd es) \<longrightarrow>
           snd (addMessage (appendAll (createSession w0 r0) es) e') \<and>
           e' \<in> set (messages (fst (addMessage (appendAll (createSession w0 r0) es) e'))))) \<and>
   (length (messages s1) \<ge> MAX_MESSAGES \<and> dedupKeyOf e \<notin> seenKeys s1 \<longrightarrow>
      messages (fst (addMessage s1 e)) = tl (messages s1) @ [e] \<and>
      dedupKeyOf (hd (messages s1)) \<notin> seenKeys (fst (addMessage s1 e)) \<and>
      (\<forall>r. requestId (hd (messages s1)) = Some r \<and> r \<noteq> [] \<longrightarrow>
           requestIdToMessageId (fst (addMessage s1 e)) r = None))"
proof (intro conjI)
  show "(w, s) \<in> set (run env evs) \<longrightarrow> length (messages s) \<le> MAX_MESSAGES"
    using reachable_storeInv[of w s env evs] by (simp add: storeInv_def)
  show "length (messages s1) \<ge> MAX_MESSAGES \<and> dedupKeyOf e \<notin> seenKeys s1 \<longrightarrow>
      messages (fst (addMessage s1 e)) = tl (messages s1) @ [e] \<and>
      dedupKeyOf (hd (messages s1)) \<notin> seenKeys (fst (addMessage s1 e)) \<and>
      (\<forall>r. requestId (hd (messages s1)) = Some r \<and> r \<noteq> [] \<longrightarrow>
           requestIdToMessageId (fst (addMessage s1 e)) r = None)"
    using evict_step[of s1 e] by blast
  let ?res = "appendAll (createSession w0 r0) es"
  show "length es = MAX_MESSAGES + 1 \<and> list_all (\<lambda>m. knownKind (kind m)) es \<and>
    distinct (map kindAndXml es) \<longrightarrow>
      length (messages ?res) = MAX_MESSAGES \<and>
      map id_msg (messages ?res) = [2..<MAX_MESSAGES + 2] \<and>
      map kindAndXml (messages ?res) = map kindAndXml (tl es) \<and>
      kindAndXml (hd es) \<notin> set (map kindAndXml (messages ?res)) \<and>
      dedupKeyOf (hd es) \<notin> seenKeys ?res \<and>
      (\<forall>r. requestId (hd es) = Some r \<and> r \<noteq> [] \<longrightarrow> requestIdToMessageId ?res r = None) \<and>
      (\<forall>e'. kindAndXml e' = kindAndXml (hd es) \<longrightarrow>
           snd (addMessage ?res e') \<and> e' \<in> set (messages (fst (addMessage ?res e'))))"
  proof
    assume h: "length es = MAX_MESSAGES + 1 \<and> list_all (\<lambda>m. knownKind (kind m)) es \<and>
      distinct (map kindAndXml es)"
    then have len: "length es = MAX_MESSAGES + 1" and dp: "distinct (map kindAndXml es)"
      by simp_all
    have dk: "distinct (map dedupKeyOf es)" using h distinct_keys by blast
    obtain e0 rest where es: "es = e0 # rest" using len by (cases es) auto
    note ov = appendAll_overflow[OF len dk, where ?w0.0=w0 and ?r0.0=r0]
    have lrest: "length rest = MAX_MESSAGES" using len es by simp
    have c1: "length (messages ?res) = MAX_MESSAGES"
      unfolding ov(1) by (simp add: es lrest)
    have c2: "map id_msg (messages ?res) = [2..<MAX_MESSAGES + 2]"
      unfolding ov(1) ids_withIds by (simp add: es lrest add.commute)
    have c3: "map kindAndXml (messages ?res) = map kindAndXml (tl es)"
      by (simp add: ov(1) kindAndXml_withIds)
    have c4: "kindAndXml (hd es) \<notin> set (map kindAndXml (messages ?res))"
      unfolding c3 using dp by (simp add: es)
    have c5: "dedupKeyOf (hd es) \<notin> seenKeys ?res"
      unfolding ov(2) using dk by (simp add: es)
    have c6: "\<forall>r. requestId (hd es) = Some r \<and> r \<noteq> [] \<longrightarrow> requestIdToMessageId ?res r = None"
      using ov(3) by blast
    have c7: "\<forall>e'. kindAndXml e' = kindAndXml (hd es) \<longrightarrow>
           snd (addMessage ?res e') \<and> e' \<in> set (messages (fst (addMessage ?res e')))"
    proof (intro allI impI)
      fix e' assume "kindAndXml e' = kindAndXml (hd es)"
      then have "dedupKeyOf e' \<notin> seenKeys ?res"
        using c5 same_pair_same_key[of e' "hd es"] by simp
      then show "snd (addMessage ?res e') \<and> e' \<in> set (messages (fst (addMessage ?res e')))"
        by (simp add: addMessage_snd_iff addMessage_new_snoc)
    qed
    show "length (messages ?res) = MAX_MESSAGES \<and>
      map id_msg (messages ?res) = [2..<MAX_MESSAGES + 2] \<and>
      map kindAndXml (messages ?res) = map kindAndXml (tl es) \<and>
      kindAndXml (hd es) \<notin> set (map kindAndXml (messages ?res)) \<and>
      dedupKeyOf (hd es) \<notin> seenKeys ?res \<and>
      (\<forall>r. requestId (hd es) = Some r \<and> r \<noteq> [] \<longrightarrow> requestIdToMessageId ?res r = None) \<and>
      (\<forall>e'. kindAndXml e' = kindAndXml (hd es) \<longrightarrow>
           snd (addMessage ?res e') \<and> e' \<in> set (messages (fst (addMessage ?res e'))))"
      using c1 c2 c3 c4 c5 c6 c7 by blast
  qed
qed

theorem bounded_fifo_store_witness:
  "length (messages startedSession) \<le> MAX_MESSAGES \<and>
   length (messages (appendAll (createSession 1 5) manyMessages)) = MAX_MESSAGES \<and>
   map id_msg (messages (appendAll (createSession 1 5) manyMessages)) = [2..<MAX_MESSAGES + 2] \<and>
   kindAndXml (hd manyMessages)
     \<notin> set (map kindAndXml (messages (appendAll (createSession 1 5) manyMessages))) \<and>
   dedupKeyOf (hd manyMessages) \<notin> seenKeys (appendAll (createSession 1 5) manyMessages) \<and>
   requestIdToMessageId (appendAll (createSession 1 5) manyMessages) ''r'' = None \<and>
   snd (addMessage (appendAll (createSession 1 5) manyMessages) (hd manyMessages)) \<and>
   messages (fst (addMessage fullSession (last manyMessages)))
     = tl (messages fullSession) @ [last manyMessages] \<and>
   dedupKeyOf (hd (messages fullSession))
     \<notin> seenKeys (fst (addMessage fullSession (last manyMessages)))"
proof -
  have r: "(1, startedSession) \<in> set (run plainHost [(sampleTime, StartCaptureMsg 1 5)])"
    by (simp add: run_start)
  have hB: "length manyMessages = MAX_MESSAGES + 1 \<and>
      list_all (\<lambda>m. knownKind (kind m)) manyMessages \<and> distinct (map kindAndXml manyMessages)"
    using numbered_known[of 0 "MAX_MESSAGES + 1"] numbered_distinct[of 0 "MAX_MESSAGES + 1"]
    by (simp add: manyMessages_def)
  have rid: "requestId (hd manyMessages) = Some ''r'' \<and> ''r'' \<noteq> []"
    by (simp add: manyMessages_ends)
  have same: "kindAndXml (hd manyMessages) = kindAndXml (hd manyMessages)" by simp
  note t = bounded_fifo_store[of 1 startedSession plainHost "[(sampleTime, StartCaptureMsg 1 5)]"
      manyMessages 1 5 fullSession "last manyMessages"]
  show ?thesis
    using t r hB fullSession_full rid same by blast
qed

text \<open>
  C3. The claim says that clearing empties the message sequence, the dedup-key set and
  the request-identifier index, and keeps the id counter. The \<^verbatim>\<open>clearMessages\<close> case
  (lines 598-599) resets \<^verbatim>\<open>messages\<close> and \<^verbatim>\<open>seenKeys\<close> only: after one message of
  request \<^verbatim>\<open>r1\<close> was stored and the session was cleared, the sequence and the key set
  are empty and the counter is unchanged, but the index still maps \<^verbatim>\<open>r1\<close> to id 1.
\<close>

theorem clear_keeps_request_index:
  "messages (clearSession oneMessageSession) = [] \<and>
   seenKeys (clearSession oneMessageSession) = {} \<and>
   nextMessageId (clearSession oneMessageSession) = nextMessageId oneMessageSession \<and>
   requestIdToMessageId (clearSession oneMessageSession) ''r1'' = Some 1 \<and>
   clearMessages [(1, oneMessageSession)] 1 = [(1, clearSession oneMessageSession)]"
  by (simp add: clearSession_def oneMessageSession_fields clearMessages_def
      getSessionByWindowId_def putSession_def)

text \<open>
  C6. For every session and every completed response whose request identifier is not in
  the index, or whose indexed message is no longer stored, \<^verbatim>\<open>attachResponseData\<close>
  changes nothing: the session is the same, so every stored message and the message
  count are unchanged; the model is total, there is no statement on these paths that can
  throw. The same holds for the whole registry of any reachable state, whichever session
  the response's tab resolves to.
\<close>

theorem attach_unknown_noop:
  "(unknownRequest s dt \<longrightarrow>
      attachResponse s dt = s \<and> messages (attachResponse s dt) = messages s \<and>
      length (messages (attachResponse s dt)) = length (messages s)) \<and>
   ((case getSessionByTabId (run env evs) (d_tabId dt') of
       None \<Rightarrow> True
     | Some (w, s') \<Rightarrow> unknownRequest s' dt') \<longrightarrow>
      attachResponseData (run env evs) dt' = run env evs)"
proof (intro conjI impI)
  assume u: "unknownRequest s dt"
  then show "attachResponse s dt = s" by (rule attachResponse_unknown)
  then show "messages (attachResponse s dt) = messages s"
    "length (messages (attachResponse s dt)) = length (messages s)" by simp_all
next
  assume h: "case getSessionByTabId (run env evs) (d_tabId dt') of
       None \<Rightarrow> True
     | Some (w, s') \<Rightarrow> unknownRequest s' dt'"
  show "attachResponseData (run env evs) dt' = run env evs"
  proof (cases "getSessionByTabId (run env evs) (d_tabId dt')")
    case None
    then show ?thesis by (simp add: attachResponseData_def)
  next
    case (Some p)
    obtain w s' where p: "p = (w, s')" by (cases p)
    have "unknownRequest s' dt'" using h Some p by simp
    then have "attachResponse s' dt' = s'" by (rule attachResponse_unknown)
    moreover have "(w, s') \<in> set (run env evs)"
      using Some p by (simp add: getSessionByTabId_mem)
    ultimately show ?thesis
      using Some p putSession_same[OF reachable_distinct, of w s' env evs]
      by (simp add: attachResponseData_def)
  qed
qed

theorem attach_unknown_noop_witness:
  "attachResponse oneMessageSession (completedDetails ''r9'') = oneMessageSession \<and>
   length (messages (attachResponse oneMessageSession (completedDetails ''r9'')))
     = length (messages oneMessageSession) \<and>
   attachResponse (clearSession oneMessageSession) (completedDetails ''r1'')
     = clearSession oneMessageSession \<and>
   attachResponseData (run plainHost [(sampleTime, StartCaptureMsg 1 5)]) (completedDetails ''r9'')
     = run plainHost [(sampleTime, StartCaptureMsg 1 5)]"
proof -
  have u1: "unknownRequest oneMessageSession (completedDetails ''r9'')"
    by (simp add: unknownRequest_def oneMessageSession_fields completedDetails_def)
  have u2: "unknownRequest (clearSession oneMessageSession) (completedDetails ''r1'')"
    by (simp add: unknownRequest_def oneMessageSession_fields completedDetails_def
        clearSession_def)
  have u3: "case getSessionByTabId (run plainHost [(sampleTime, StartCaptureMsg 1 5)])
                 (d_tabId (completedDetails ''r9'')) of
              None \<Rightarrow> True
            | Some (w, s') \<Rightarrow> unknownRequest s' (completedDetails ''r9'')"
    by (simp add: run_start startedSession_def createSession_def completedDetails_def
        unknownRequest_def)
  show ?thesis
    using attach_unknown_noop[where s = oneMessageSession and dt = "completedDetails ''r9''"
        and env = plainHost and evs = "[(sampleTime, StartCaptureMsg 1 5)]"
        and dt' = "completedDetails ''r9''"]
      attach_unknown_noop[where s = "clearSession oneMessageSession"
        and dt = "completedDetails ''r1''" and env = plainHost
        and evs = "[(sampleTime, StartCaptureMsg 1 5)]" and dt' = "completedDetails ''r9''"]
      u1 u2 u3
    by blast
qed

text \<open>
  C5. As stated (after any sequence of tab-create and tab-remove transitions the tracked
  set is non-empty and contains the root tab) the claim fails: \<^verbatim>\<open>onTabRemoved\<close> deletes
  whichever tab id it is given, the root included, and the session stays. After
  \<^verbatim>\<open>startCapture(1, 5)\<close> and the removal of tab 5 the session of window 1 has root 5 and
  an empty tracked set.
\<close>

theorem root_removed_counterexample:
  "map (rootTabId \<circ> snd)
     (run plainHost [(sampleTime, StartCaptureMsg 1 5), (sampleTime, TabRemoved 5)]) = [5] \<and>
   map (trackedTabIds \<circ> snd)
     (run plainHost [(sampleTime, StartCaptureMsg 1 5), (sampleTime, TabRemoved 5)]) = [{}]"
  by (simp add: run_def startCaptureMessage_def getSessionByWindowId_def startCapture_def
      setSession_def createSession_def onTabRemoved_def putSession_def)

text \<open>
  C5, amended. For every session of a reachable state that tracks its root tab, after any
  sequence of tab-create and tab-remove events none of which removes the root tab itself,
  the session is still registered under its window, has the same root tab, and its
  tracked set contains the root tab and so is not empty.
\<close>

theorem root_tracked_unless_removed:
  assumes "getSessionByWindowId (run env pre) w = Some s"
    and "rootTabId s \<in> trackedTabIds s"
    and "\<forall>ev \<in> set evs. isTabEvent (snd ev) \<and> snd ev \<noteq> TabRemoved (rootTabId s)"
  shows "\<exists>s'. getSessionByWindowId (run env (pre @ evs)) w = Some s' \<and>
           rootTabId s' = rootTabId s \<and> rootTabId s \<in> trackedTabIds s' \<and>
           trackedTabIds s' \<noteq> {}"
proof -
  have "\<exists>s'. map_of (foldl (step env) (run env pre) evs) w = Some s' \<and>
      rootTabId s' = rootTabId s \<and> rootTabId s \<in> trackedTabIds s'"
    using tab_steps_keep_root[OF reachable_distinct _ assms(2,3)] assms(1)
    by (simp add: getSessionByWindowId_def)
  then show ?thesis
    by (auto simp: run_append getSessionByWindowId_def)
qed

theorem root_tracked_unless_removed_witness:
  "\<exists>s'. getSessionByWindowId
          (run plainHost ([(sampleTime, StartCaptureMsg 1 5)] @
             [(sampleTime, TabCreated \<lparr>t_id = 7, openerTabId = Some 5\<rparr>),
              (sampleTime, TabRemoved 7)])) 1 = Some s' \<and>
        rootTabId s' = rootTabId startedSession \<and>
        rootTabId startedSession \<in> trackedTabIds s' \<and> trackedTabIds s' \<noteq> {}"
proof -
  have a: "getSessionByWindowId (run plainHost [(sampleTime, StartCaptureMsg 1 5)]) 1
      = Some startedSession"
    by (simp add: run_start getSessionByWindowId_def)
  have b: "rootTabId startedSession \<in> trackedTabIds startedSession"
    by (simp add: startedSession_def createSession_def)
  have c: "\<forall>ev \<in> set [(sampleTime, TabCreated \<lparr>t_id = 7, openerTabId = Some 5\<rparr>),
              (sampleTime, TabRemoved 7)].
      isTabEvent (snd ev) \<and> snd ev \<noteq> TabRemoved (rootTabId startedSession)"
    by (simp add: startedSession_def createSession_def)
  show ?thesis
    by (rule root_tracked_unless_removed[OF a b c])
qed

text \<open>
  C8. \<^verbatim>\<open>decodeSAML\<close> returns \<^verbatim>\<open>null\<close> exactly when base64-decoding of the payload fails
  or the text decoded from the final bytes is empty. When inflation is requested and
  \<^verbatim>\<open>DecompressionStream\<close> is undefined, or the stream throws, \<^verbatim>\<open>maybeInflateDeflateRaw\<close>
  returns the base64-decoded bytes themselves, so the result is the one of decoding
  without inflation: no decode fails because of inflation alone.
\<close>

theorem decode_fails_iff:
  "((decodeSAML env b64 tryInflate = None) =
      (b64ToBytes b64 = None \<or>
       (\<exists>bs. b64ToBytes b64 = Some bs \<and>
          utf8Decode env (if tryInflate then maybeInflateDeflateRaw env bs else bs) = []))) \<and>
   (inflateRaw env = None \<longrightarrow>
      maybeInflateDeflateRaw env bs0 = bs0 \<and>
      decodeSAML env b64 True = decodeSAML env b64 False) \<and>
   (inflateRaw env = Some inflate \<and> inflate bs0 = None \<longrightarrow>
      maybeInflateDeflateRaw env bs0 = bs0) \<and>
   (inflateRaw env = Some inflate \<and> b64ToBytes b64 = Some bs0 \<and> inflate bs0 = None \<longrightarrow>
      decodeSAML env b64 True = decodeSAML env b64 False)"
  by (auto simp: decodeSAML_def bytesToUtf8_def maybeInflateDeflateRaw_def Let_def
      split: option.splits)

theorem decode_fails_iff_witness:
  "b64ToBytes ''<a/>'' = None \<and>
   decodeSAML plainHost ''<a/>'' True = None \<and>
   maybeInflateDeflateRaw plainHost [60, 97, 47, 62] = [60, 97, 47, 62] \<and>
   decodeSAML plainHost ''PGEvPg=='' True = decodeSAML plainHost ''PGEvPg=='' False \<and>
   maybeInflateDeflateRaw failingInflateHost [60, 97, 47, 62] = [60, 97, 47, 62] \<and>
   decodeSAML failingInflateHost ''PGEvPg=='' True = decodeSAML failingInflateHost ''PGEvPg=='' False \<and>
   decodeSAML failingInflateHost ''PGEvPg=='' True = Some ''<a/>''"
proof -
  have none: "inflateRaw plainHost = None" by (simp add: plainHost_def)
  have fails: "inflateRaw failingInflateHost = Some (\<lambda>bs. None)"
    by (simp add: failingInflateHost_def)
  have bad: "b64ToBytes ''<a/>'' = None" by (rule sample_decode)
  have good: "b64ToBytes ''PGEvPg=='' = Some [60, 97, 47, 62]" by (rule sample_decode)
  have t1: "decodeSAML plainHost ''<a/>'' True = None"
    using decode_fails_iff[of plainHost "''<a/>''" True] bad by blast
  have t2: "maybeInflateDeflateRaw plainHost [60, 97, 47, 62] = [60, 97, 47, 62] \<and>
      decodeSAML plainHost ''PGEvPg=='' True = decodeSAML plainHost ''PGEvPg=='' False"
    using decode_fails_iff[of plainHost "''PGEvPg==''" _ "[60, 97, 47, 62]"] none by blast
  have t3: "maybeInflateDeflateRaw failingInflateHost [60, 97, 47, 62] = [60, 97, 47, 62] \<and>
      decodeSAML failingInflateHost ''PGEvPg=='' True
        = decodeSAML failingInflateHost ''PGEvPg=='' False"
    using decode_fails_iff[of failingInflateHost "''PGEvPg==''" _ "[60, 97, 47, 62]" "\<lambda>bs. None"]
      fails good by blast
  show ?thesis using bad t1 t2 t3 sample_decode(5) by blast
qed

text \<open>
  C10. Every stored message of every reachable session that has transport GET or POST
  and kind \<^verbatim>\<open>SAMLRequest\<close> has the encoding \<^verbatim>\<open>deflate-raw\<close>. For one exchange: when the
  candidate found in the query string or form body is named \<^verbatim>\<open>SAMLRequest\<close>, the entry
  that \<^verbatim>\<open>handlePossibleSAML\<close> builds has kind \<^verbatim>\<open>SAMLRequest\<close>, the candidate's
  transport and the encoding \<^verbatim>\<open>deflate-raw\<close>, also when \<^verbatim>\<open>DecompressionStream\<close> is
  undefined or throws, in which case the stored XML is the trimmed text of the plain
  base64-decoded bytes.
\<close>

theorem samlrequest_encoding_deflate_raw:
  "((w, s) \<in> set (run env evs) \<and> m \<in> set (messages s) \<and>
    transport m \<in> {''GET'', ''POST''} \<and> kind m = ''SAMLRequest'' \<longrightarrow>
      encoding m = Some ''deflate-raw'') \<and>
   ((case extractFromQuery env (d_url dt) of Some f \<Rightarrow> Some f
       | None \<Rightarrow> extractFromBody env dt) = Some f \<and>
    c_name f = ''SAMLRequest'' \<and> c_transport f \<in> {''GET'', ''POST''} \<and>
    possibleSAMLEntry env now i dt = Some e \<longrightarrow>
      kind e = ''SAMLRequest'' \<and> transport e = c_transport f \<and>
      encoding e = Some ''deflate-raw'' \<and>
      (inflateRaw env = None \<or>
       (\<exists>inflate bs. inflateRaw env = Some inflate \<and> b64ToBytes (c_value f) = Some bs \<and>
          inflate bs = None) \<longrightarrow>
         (\<exists>bs. b64ToBytes (c_value f) = Some bs \<and> xml e = trim (utf8Decode env bs))))"
proof (intro conjI impI)
  assume "(w, s) \<in> set (run env evs) \<and> m \<in> set (messages s) \<and>
    transport m \<in> {''GET'', ''POST''} \<and> kind m = ''SAMLRequest''"
  then show "encoding m = Some ''deflate-raw''"
    using reachable_deflateInv[of w s env evs]
    by (auto simp: deflateInv_def list_all_iff deflateRecorded_def)
next
  assume h: "(case extractFromQuery env (d_url dt) of Some f \<Rightarrow> Some f
       | None \<Rightarrow> extractFromBody env dt) = Some f \<and>
    c_name f = ''SAMLRequest'' \<and> c_transport f \<in> {''GET'', ''POST''} \<and>
    possibleSAMLEntry env now i dt = Some e"
  then have f: "(case extractFromQuery env (d_url dt) of Some f \<Rightarrow> Some f
       | None \<Rightarrow> extractFromBody env dt) = Some f"
    and n: "c_name f = ''SAMLRequest''" and t: "c_transport f \<in> {''GET'', ''POST''}"
    and e: "possibleSAMLEntry env now i dt = Some e" by simp_all
  note p = default_path_entry[OF f n t e]
  show "kind e = ''SAMLRequest''" by (rule p(1))
  show "transport e = c_transport f" by (rule p(2))
  show "encoding e = Some ''deflate-raw''" by (rule p(3))
  assume inf: "inflateRaw env = None \<or>
       (\<exists>inflate bs. inflateRaw env = Some inflate \<and> b64ToBytes (c_value f) = Some bs \<and>
          inflate bs = None)"
  obtain x where x: "decodeSAML env (c_value f) True = Some x" "xml e = trim x"
    using p(5) by blast
  show "\<exists>bs. b64ToBytes (c_value f) = Some bs \<and> xml e = trim (utf8Decode env bs)"
    using decode_without_inflate[OF inf x(1)] x(2) by auto
qed

theorem samlrequest_encoding_deflate_raw_witness:
  "inflateRaw redirectHost = None \<and>
   encoding (hd (messages redirectSession)) = Some ''deflate-raw'' \<and>
   kind (hd (messages redirectSession)) = ''SAMLRequest'' \<and>
   (\<exists>bs. b64ToBytes ''PGEvPg=='' = Some bs \<and>
      xml (hd (messages redirectSession)) = trim (utf8Decode redirectHost bs))"
proof -
  let ?evs = "[(sampleTime, StartCaptureMsg 1 5), (sampleTime, BeforeRequest redirectDetails)]"
  let ?f = "\<lparr>c_name = ''SAMLRequest'', c_value = ''PGEvPg=='', c_transport = ''GET''\<rparr>"
  let ?m = "hd (messages redirectSession)"
  have none: "inflateRaw redirectHost = None"
    by (simp add: redirectHost_def plainHost_def)
  have h1: "(1, redirectSession) \<in> set (run redirectHost ?evs) \<and> ?m \<in> set (messages redirectSession) \<and>
      transport ?m \<in> {''GET'', ''POST''} \<and> kind ?m = ''SAMLRequest''"
    by (simp add: redirect_run redirect_messages)
  have h2: "(case extractFromQuery redirectHost (d_url redirectDetails) of Some f \<Rightarrow> Some f
       | None \<Rightarrow> extractFromBody redirectHost redirectDetails) = Some ?f \<and>
    c_name ?f = ''SAMLRequest'' \<and> c_transport ?f \<in> {''GET'', ''POST''} \<and>
    possibleSAMLEntry redirectHost sampleTime 1 redirectDetails = Some ?m"
  proof -
    have "possibleSAMLEntry redirectHost sampleTime 1 redirectDetails = Some ?m"
      unfolding redirect_messages list.sel by (rule redirect_entry)
    then show ?thesis by (simp add: redirect_found)
  qed
  note t = samlrequest_encoding_deflate_raw[of 1 redirectSession redirectHost ?evs ?m
      redirectDetails ?f sampleTime 1 ?m]
  have "encoding ?m = Some ''deflate-raw''" using t h1 by blast
  moreover have "kind ?m = ''SAMLRequest''" using h1 by blast
  moreover have "\<exists>bs. b64ToBytes (c_value ?f) = Some bs \<and>
      xml ?m = trim (utf8Decode redirectHost bs)"
    using t h2 none by blast
  ultimately show ?thesis using none by simp
qed

text \<open>
  C9. In every reachable session, a stored message with transport \<^verbatim>\<open>HEADER(req)\<close>,
  \<^verbatim>\<open>HEADER(res)\<close> or \<^verbatim>\<open>IMPORT\<close> has no request identifier, no entry of the
  request-identifier index points at its id, it has neither response status nor response
  headers, and \<^verbatim>\<open>attachResponseData\<close> leaves it as it is whatever response completes.
  Conversely a stored message that has response data, or that the index points at, has
  one of the transports GET, POST, JSON, SOAP and a request identifier. The entries that
  \<^verbatim>\<open>handleHeaderValue\<close> and the import build have these transports and no request
  identifier.
\<close>

theorem header_import_never_correlated:
  "((w, s) \<in> set (run env evs) \<and> m \<in> set (messages s) \<and>
    transport m \<in> {''HEADER(req)'', ''HEADER(res)'', ''IMPORT''} \<longrightarrow>
      requestId m = None \<and> (\<forall>r. requestIdToMessageId s r \<noteq> Some (id_msg m)) \<and>
      statusCode m = None \<and> responseHeaders m = None \<and>
      (\<forall>dt. m \<in> set (messages (attachResponse s dt)))) \<and>
   ((w, s) \<in> set (run env evs) \<and> m \<in> set (messages s) \<and>
    (statusCode m \<noteq> None \<or> responseHeaders m \<noteq> None \<or>
     (\<exists>r. requestIdToMessageId s r = Some (id_msg m))) \<longrightarrow>
      transport m \<in> {''GET'', ''POST'', ''JSON'', ''SOAP''} \<and> truthyStr (requestId m)) \<and>
   (headerEntry env now i dt n v isRequest = Some e \<longrightarrow>
      transport e \<in> {''HEADER(req)'', ''HEADER(res)''} \<and> requestId e = None) \<and>
   (importEntry now x i = Some e' \<longrightarrow> transport e' = ''IMPORT'' \<and> requestId e' = None)"
proof (intro conjI impI)
  assume h: "(w, s) \<in> set (run env evs) \<and> m \<in> set (messages s) \<and>
    transport m \<in> {''HEADER(req)'', ''HEADER(res)'', ''IMPORT''}"
  then have r: "(w, s) \<in> set (run env evs)" and m: "m \<in> set (messages s)"
    and u: "uncorrelatedTransport (transport m)"
    by (simp_all add: uncorrelatedTransport_def)
  have inv: "correlationInv s" using r by (rule reachable_correlationInv)
  note d = correlationInvD[OF inv m]
  show none: "requestId m = None" using u by (rule d(1))
  then have nt: "\<not> truthyStr (requestId m)" by simp
  show "statusCode m = None" "responseHeaders m = None"
    using d(4)[OF nt] by simp_all
  show noidx: "\<forall>r. requestIdToMessageId s r \<noteq> Some (id_msg m)"
    using d(5) nt by blast
  show "\<forall>dt. m \<in> set (messages (attachResponse s dt))"
  proof
    fix dt
    show "m \<in> set (messages (attachResponse s dt))"
    proof (cases "requestIdToMessageId s (d_requestId dt)")
      case None
      then show ?thesis using m by (simp add: attachResponse_def)
    next
      case (Some j)
      then have ne: "id_msg m \<noteq> j" using noidx by auto
      show ?thesis
      proof (cases "attachTo j (d_statusCode dt)
          (filterHeaders [''content-type'', ''location'', ''set-cookie''] (d_responseHeaders dt))
          (messages s)")
        case None
        then show ?thesis
          using m \<open>requestIdToMessageId s (d_requestId dt) = Some j\<close>
          by (simp add: attachResponse_def)
      next
        case (Some ms')
        then have "m \<in> set ms'" using m ne by (rule attachTo_other)
        then show ?thesis
          using m Some \<open>requestIdToMessageId s (d_requestId dt) = Some j\<close>
          by (simp add: attachResponse_def)
      qed
    qed
  qed
next
  assume h: "(w, s) \<in> set (run env evs) \<and> m \<in> set (messages s) \<and>
    (statusCode m \<noteq> None \<or> responseHeaders m \<noteq> None \<or>
     (\<exists>r. requestIdToMessageId s r = Some (id_msg m)))"
  then have r: "(w, s) \<in> set (run env evs)" and m: "m \<in> set (messages s)"
    and c: "statusCode m \<noteq> None \<or> responseHeaders m \<noteq> None \<or>
     (\<exists>r. requestIdToMessageId s r = Some (id_msg m))"
    by simp_all
  have inv: "correlationInv s" using r by (rule reachable_correlationInv)
  note d = correlationInvD[OF inv m]
  show t: "truthyStr (requestId m)"
  proof (rule ccontr)
    assume n: "\<not> truthyStr (requestId m)"
    then have "statusCode m = None \<and> responseHeaders m = None" by (rule d(4))
    moreover have "requestIdToMessageId s r \<noteq> Some (id_msg m)" for r
      using d(5)[of r] n by blast
    ultimately show False using c by blast
  qed
  then have "requestId m \<noteq> None" by (cases "requestId m") simp_all
  then have "\<not> uncorrelatedTransport (transport m)" by (rule d(3))
  then show "transport m \<in> {''GET'', ''POST'', ''JSON'', ''SOAP''}" by (rule d(2))
next
  assume "headerEntry env now i dt n v isRequest = Some e"
  then show "transport e \<in> {''HEADER(req)'', ''HEADER(res)''}" "requestId e = None"
    by (rule headerEntry_props)+
next
  assume "importEntry now x i = Some e'"
  then show "transport e' = ''IMPORT''" "requestId e' = None"
    by (rule importEntry_props)+
qed

theorem header_import_never_correlated_witness:
  "requestId (hd (messages headerSession)) = None \<and>
   requestIdToMessageId headerSession ''r1'' \<noteq> Some (id_msg (hd (messages headerSession))) \<and>
   statusCode (hd (messages headerSession)) = None \<and>
   responseHeaders (hd (messages headerSession)) = None \<and>
   hd (messages headerSession)
     \<in> set (messages (attachResponse headerSession (completedDetails ''r1''))) \<and>
   transport (hd (messages answeredSession)) \<in> {''GET'', ''POST'', ''JSON'', ''SOAP''} \<and>
   truthyStr (requestId (hd (messages answeredSession)))"
proof -
  let ?hevs = "[(sampleTime, StartCaptureMsg 1 5), (sampleTime, BeforeSendHeaders headerDetails)]"
  let ?aevs = "[(sampleTime, StartCaptureMsg 1 5), (sampleTime, BeforeRequest redirectDetails),
       (sampleTime, Completed (completedDetails ''r1''))]"
  let ?h = "hd (messages headerSession)"
  let ?a = "hd (messages answeredSession)"
  have h1: "(1, headerSession) \<in> set (run plainHost ?hevs) \<and> ?h \<in> set (messages headerSession) \<and>
      transport ?h \<in> {''HEADER(req)'', ''HEADER(res)'', ''IMPORT''}"
    by (simp add: header_run header_messages)
  have h2: "(1, answeredSession) \<in> set (run redirectHost ?aevs) \<and>
      ?a \<in> set (messages answeredSession) \<and>
      (statusCode ?a \<noteq> None \<or> responseHeaders ?a \<noteq> None \<or>
       (\<exists>r. requestIdToMessageId answeredSession r = Some (id_msg ?a)))"
    by (simp add: answered_run answered_messages)
  note t1 = header_import_never_correlated[where w = 1 and s = headerSession and env = plainHost
      and evs = ?hevs and m = ?h, THEN conjunct1, rule_format, OF h1]
  note t2 = header_import_never_correlated[where w = 1 and s = answeredSession
      and env = redirectHost and evs = ?aevs and m = ?a,
      THEN conjunct2, THEN conjunct1, rule_format, OF h2]
  from t1 have a1: "requestId ?h = None" and a3: "statusCode ?h = None"
    and a4: "responseHeaders ?h = None"
    and a2: "\<forall>r. requestIdToMessageId headerSession r \<noteq> Some (id_msg ?h)"
    and a5: "\<forall>dt. ?h \<in> set (messages (attachResponse headerSession dt))"
    by blast+
  from t2 have b1: "transport ?a \<in> {''GET'', ''POST'', ''JSON'', ''SOAP''}"
    and b2: "truthyStr (requestId ?a)" by blast+
  show ?thesis
    using a1 a2[rule_format, of "''r1''"] a3 a4 a5[rule_format, of "completedDetails ''r1''"] b1 b2
    by (intro conjI)
qed

text \<open>
  C4. As stated (a SAML-named field is preferred over a value that merely looks like
  base64) the claim fails. The walk pushes SAML-named fields and base64-looking values
  onto one list in the order in which it meets them, and \<^verbatim>\<open>extractFromBody\<close> takes
  the first item of that list whose value looks like base64. For the body
  \<^verbatim>\<open>{"token":"AAAAAAAAAAAAAAAA","samlResponse":"PHNhbWxwOlJlc3BvbnNlLz4="}\<close> the
  candidate is the token, named \<^verbatim>\<open>SAMLBase64\<close>; it does not decode to XML, so the
  exchange stores nothing. The same happens for
  \<^verbatim>\<open>{"samlResponse":"PHNhbWxwOlJlc3BvbnNlLz4=","1":"AAAAAAAAAAAAAAAA"}\<close>, where the
  SAML-named field comes first in the document: \<^verbatim>\<open>Object.entries\<close> lists the
  integer-like key \<^verbatim>\<open>1\<close> before it.
\<close>

theorem json_named_field_not_preferred:
  "walk tokenFirstObject [] =
     [(''token'', ''AAAAAAAAAAAAAAAA''), (''samlResponse'', ''PHNhbWxwOlJlc3BvbnNlLz4='')] \<and>
   extractFromBody jsonHost (jsonDetails tokenFirstText) =
     Some \<lparr>c_name = ''SAMLBase64'', c_value = ''AAAAAAAAAAAAAAAA'', c_transport = ''JSON''\<rparr> \<and>
   possibleSAMLEntry jsonHost sampleTime 1 (jsonDetails tokenFirstText) = None \<and>
   walk intKeyObject [] =
     [(''1'', ''AAAAAAAAAAAAAAAA''), (''samlResponse'', ''PHNhbWxwOlJlc3BvbnNlLz4='')] \<and>
   extractFromBody jsonHost (jsonDetails intKeyText) =
     Some \<lparr>c_name = ''SAMLBase64'', c_value = ''AAAAAAAAAAAAAAAA'', c_transport = ''JSON''\<rparr> \<and>
   possibleSAMLEntry jsonHost sampleTime 1 (jsonDetails intKeyText) = None"
  by code_simp

text \<open>
  C4, amended. When no form field matched and the raw body parses as JSON, the candidate
  is the first item, in the order in which the walk meets them, whose value looks like
  base64; the items are the string fields with a SAML name and the other string values
  that look like base64. The walk is depth-first; it takes the properties of an object
  in the order of \<^verbatim>\<open>Object.entries\<close> (integer-like keys first, in ascending order, then
  the other keys in the order of the document) and the elements of an array by index.
  So a SAML-named field is the candidate when its value looks like base64 and no
  base64-looking item precedes it in that order, and it is then named \<^verbatim>\<open>SAMLRequest\<close>
  or \<^verbatim>\<open>SAMLResponse\<close>; an item whose value does not look like base64 is passed over,
  and a JSON candidate then comes from the items after it.
\<close>

theorem json_first_base64_item_wins:
  assumes "extractFromFormData dt = None" and "decodeRawBody env dt = Some text"
    and "jsonParse env text = Some obj"
    and "walk obj [] = pre @ (k, v) # post"
    and "\<forall>it \<in> set pre. \<not> looksLikeBase64 (snd it)"
  shows "(looksLikeBase64 v \<longrightarrow>
            extractFromBody env dt =
              Some \<lparr>c_name = jsonCandidateName k, c_value = v, c_transport = ''JSON''\<rparr>) \<and>
         (looksLikeBase64 v \<and>
          (includesStr (toLowerCase k) ''samlresponse'' \<or>
           includesStr (toLowerCase k) ''samlrequest'') \<longrightarrow>
            jsonCandidateName k \<in> {''SAMLRequest'', ''SAMLResponse''}) \<and>
         (\<not> looksLikeBase64 v \<longrightarrow>
            (case extractFromBody env dt of
               None \<Rightarrow> True
             | Some f \<Rightarrow> c_transport f = ''JSON'' \<longrightarrow> (\<exists>it \<in> set post. c_value f = snd it))) \<and>
         walk (JObject es) k0 = concat (map (\<lambda>e. walk (snd e) (fst e)) es) \<and>
         walk (JArray xs) k0 =
           concat (map (\<lambda>p. walk (snd p) (decimal (fst p))) (zip [0..<length xs] xs)) \<and>
         walk (JString x) k0 =
           (if includesStr (toLowerCase k0) ''samlresponse'' \<or>
               includesStr (toLowerCase k0) ''samlrequest'' then [(k0, x)]
            else if looksLikeBase64 x then [(if k0 = [] then ''b64'' else k0, x)]
            else [])"
proof (intro conjI impI)
  have json: "extractSAMLFromJSONText env text = Some (pre @ (k, v) # post)"
    using assms(3,4) by (simp add: extractSAMLFromJSONText_def)
  {
    assume v: "looksLikeBase64 v"
    show "extractFromBody env dt =
        Some \<lparr>c_name = jsonCandidateName k, c_value = v, c_transport = ''JSON''\<rparr>"
      using assms(1,2) json firstBase64Item_first[OF assms(5) v]
      by (simp add: extractFromBody_def)
  }
  {
    assume h: "looksLikeBase64 v \<and>
          (includesStr (toLowerCase k) ''samlresponse'' \<or>
           includesStr (toLowerCase k) ''samlrequest'')"
    then have ne: "k \<noteq> []" by (auto simp: toLowerCase_def)
    from h have "includesStr (toLowerCase k) ''response'' \<or> includesStr (toLowerCase k) ''request''"
      using saml_named_request saml_named_response by blast
    then show "jsonCandidateName k \<in> {''SAMLRequest'', ''SAMLResponse''}"
      using ne by (auto simp: jsonCandidateName_def)
  }
  {
    assume nv: "\<not> looksLikeBase64 v"
    have skip: "firstBase64Item (pre @ (k, v) # post) = firstBase64Item post"
      using assms(5) nv by (induction pre) auto
    have inpost: "firstBase64Item items = Some f \<Longrightarrow> \<exists>it \<in> set items. c_value f = snd it" for items f
      by (induction items rule: firstBase64Item.induct) (auto split: if_splits)
    show "case extractFromBody env dt of
               None \<Rightarrow> True
             | Some f \<Rightarrow> c_transport f = ''JSON'' \<longrightarrow> (\<exists>it \<in> set post. c_value f = snd it)"
      using assms(1,2) json skip inpost[of post]
      by (auto simp: extractFromBody_def split: option.splits)
  }
  show "walk (JObject es) k0 = concat (map (\<lambda>e. walk (snd e) (fst e)) es)"
    by (simp add: walkEntries_concat)
  show "walk (JArray xs) k0 =
      concat (map (\<lambda>p. walk (snd p) (decimal (fst p))) (zip [0..<length xs] xs))"
    using walkElements_concat[of 0 xs] by simp
  show "walk (JString x) k0 =
           (if includesStr (toLowerCase k0) ''samlresponse'' \<or>
               includesStr (toLowerCase k0) ''samlrequest'' then [(k0, x)]
            else if looksLikeBase64 x then [(if k0 = [] then ''b64'' else k0, x)]
            else [])"
    by (simp add: Let_def)
qed

theorem json_first_base64_item_wins_witness:
  "extractFromBody jsonHost (jsonDetails skippedText) =
     Some \<lparr>c_name = ''SAMLResponse'', c_value = ''PHNhbWxwOlJlc3BvbnNlLz4='',
           c_transport = ''JSON''\<rparr> \<and>
   walk skippedObject [] =
     walk (JString ''n/a'') ''samlRequest'' @
     walk (JString ''PHNhbWxwOlJlc3BvbnNlLz4='') ''samlResponse''"
proof -
  have pre: "\<forall>it \<in> set [(''samlRequest'', ''n/a'')]. \<not> looksLikeBase64 (snd it)"
    using skipped_facts(7) by simp
  note t = json_first_base64_item_wins[OF skipped_facts(1,2,3,4) pre,
      where es = "[(''samlRequest'', JString ''n/a''),
                   (''samlResponse'', JString ''PHNhbWxwOlJlc3BvbnNlLz4='')]"
        and ?k0.0 = "[]"]
  have "extractFromBody jsonHost (jsonDetails skippedText) =
     Some \<lparr>c_name = jsonCandidateName ''samlResponse'', c_value = ''PHNhbWxwOlJlc3BvbnNlLz4='',
           c_transport = ''JSON''\<rparr>"
    using t skipped_facts(5) by blast
  then have a: "extractFromBody jsonHost (jsonDetails skippedText) =
     Some \<lparr>c_name = ''SAMLResponse'', c_value = ''PHNhbWxwOlJlc3BvbnNlLz4='',
           c_transport = ''JSON''\<rparr>"
    by (simp only: skipped_facts(6))
  have "walk (JObject [(''samlRequest'', JString ''n/a''),
                   (''samlResponse'', JString ''PHNhbWxwOlJlc3BvbnNlLz4='')]) [] =
      concat (map (\<lambda>e. walk (snd e) (fst e))
        [(''samlRequest'', JString ''n/a''),
         (''samlResponse'', JString ''PHNhbWxwOlJlc3BvbnNlLz4='')])"
    using t by blast
  then have b: "walk skippedObject [] =
     walk (JString ''n/a'') ''samlRequest'' @
     walk (JString ''PHNhbWxwOlJlc3BvbnNlLz4='') ''samlResponse''"
    by (simp add: skippedObject_def del: walk.simps)
  show ?thesis using a b by (rule conjI)
qed

text \<open>
  C7. As stated (for every string that base64-decodes, decoding and encoding again gives
  the string back) the claim fails: \<^verbatim>\<open>b64ToBytes\<close> decodes with \<^verbatim>\<open>atob\<close>, which accepts
  strings that no encoder produces. \<^verbatim>\<open>YQ\<close> (padding left out), \<^verbatim>\<open>YR==\<close> (unused bits
  not zero) and \<^verbatim>\<open>Y Q==\<close> (white space) all decode to the one byte 97, whose base64 is
  \<^verbatim>\<open>YQ==\<close>.
\<close>

theorem base64_roundtrip_needs_canonical:
  "b64ToBytes ''YQ'' = Some [97] \<and> base64Encode [97] = ''YQ=='' \<and>
   decodeSAML plainHost ''YQ'' False = Some ''a'' \<and>
   b64ToBytes ''YR=='' = Some [97] \<and>
   b64ToBytes ''Y Q=='' = Some [97]"
  by code_simp

text \<open>
  C7, amended. For every canonical base64 string (groups of four alphabet characters,
  the last group padded with \<^verbatim>\<open>=\<close> where needed, the bits that the padding leaves unused
  zero, no white space) \<^verbatim>\<open>b64ToBytes\<close> succeeds and encoding the bytes gives the string
  back; and for every string that decodes at all, encoding the bytes gives the string
  back exactly when the string is canonical. These bytes are the ones from which
  \<^verbatim>\<open>decodeSAML\<close> without inflation takes its text.
\<close>

theorem base64_roundtrip_canonical:
  "(canonicalBase64 b \<longrightarrow> (\<exists>bs. b64ToBytes b = Some bs \<and> base64Encode bs = b)) \<and>
   (b64ToBytes b = Some bs \<longrightarrow> (base64Encode bs = b) = canonicalBase64 b) \<and>
   decodeSAML env b False =
     (case b64ToBytes b of
        None \<Rightarrow> None
      | Some bs \<Rightarrow> if utf8Decode env bs = [] then None else Some (utf8Decode env bs))"
proof (intro conjI impI)
  show "canonicalBase64 b \<Longrightarrow> \<exists>bs. b64ToBytes b = Some bs \<and> base64Encode bs = b"
    by (rule canonical_decode_encode)
  show "(base64Encode bs = b) = canonicalBase64 b" if d: "b64ToBytes b = Some bs"
  proof
    assume "base64Encode bs = b"
    then show "canonicalBase64 b" using canonical_base64Encode[of bs] by simp
  next
    assume "canonicalBase64 b"
    then obtain bs' where "b64ToBytes b = Some bs'" "base64Encode bs' = b"
      using canonical_decode_encode by blast
    then show "base64Encode bs = b" using d by simp
  qed
  show "decodeSAML env b False =
     (case b64ToBytes b of
        None \<Rightarrow> None
      | Some bs \<Rightarrow> if utf8Decode env bs = [] then None else Some (utf8Decode env bs))"
    by (simp add: decodeSAML_def bytesToUtf8_def split: option.splits)
qed

theorem base64_roundtrip_canonical_witness:
  "(\<exists>bs. b64ToBytes ''PGEvPg=='' = Some bs \<and> base64Encode bs = ''PGEvPg=='') \<and>
   base64Encode [60, 97, 47, 62] = ''PGEvPg=='' \<and>
   base64Encode [97] \<noteq> ''YQ''"
proof -
  have a: "\<exists>bs. b64ToBytes ''PGEvPg=='' = Some bs \<and> base64Encode bs = ''PGEvPg==''"
    using base64_roundtrip_canonical[of "''PGEvPg==''"] roundtrip_facts(1) by blast
  have pg: "b64ToBytes ''PGEvPg=='' = Some [60, 97, 47, 62]" by code_simp
  have b: "base64Encode [60, 97, 47, 62] = ''PGEvPg==''"
    using base64_roundtrip_canonical[of "''PGEvPg==''" "[60, 97, 47, 62]"]
      roundtrip_facts(1) pg by blast
  have yq: "b64ToBytes ''YQ'' = Some [97]" by code_simp
  have c: "base64Encode [97] \<noteq> ''YQ''"
    using base64_roundtrip_canonical[of "''YQ''" "[97]"] roundtrip_facts(2) yq by blast
  show ?thesis using a b c by (intro conjI)
qed

end
